theory Spec2Isabelle
  imports Main
begin

section \<open>Events, descriptors and callbacks\<close>

text \<open>
  \<^verbatim>\<open>BusEventType<T>\<close> is the constructor of an event class; the bus reads its static
  \<^verbatim>\<open>type\<close> string and nothing else.
\<close>

datatype BusEventType = BusEventType (type: string)

text \<open>
  A value travelling on the stream. \<^verbatim>\<open>BusEvent\<close> carries \<^verbatim>\<open>type\<close>,
  \<^verbatim>\<open>BusEventWithPayload<T>\<close> adds \<^verbatim>\<open>payload\<close>, and the legacy \<^verbatim>\<open>emit\<close> builds the
  object literal \<^verbatim>\<open>{type, payload}\<close>. Reading \<^verbatim>\<open>payload\<close> of an object that has none, or
  whose optional argument was omitted, gives \<^verbatim>\<open>undefined\<close>: that is \<open>None\<close>.
\<close>

record 'p BusEvent =
  type :: string
  payload :: "'p option"

text \<open>
  Modelled from the spec: \<^verbatim>\<open>AppEvent<T>\<close> is imported from \<^verbatim>\<open>../types/appEvents\<close>; the legacy
  functions read the descriptor's \<^verbatim>\<open>name\<close> field only.
\<close>

record AppEvent =
  name :: string

text \<open>
  The first argument of the legacy functions has type \<^verbatim>\<open>AppEvent<T> | string\<close>; the code
  tells the two apart with \<^verbatim>\<open>typeof event === 'string'\<close>.
\<close>

datatype nameOrEvent = Name string | Descriptor AppEvent

text \<open>
  A handler is an opaque callback of the caller, of type \<open>'h\<close>. What the bus does with it
  is to invoke it: an invocation is recorded with the subscriber object that made it, the
  handler and the argument passed. A handler registered with \<^verbatim>\<open>$on\<close> is passed the event,
  one registered with the legacy \<^verbatim>\<open>on\<close> is passed \<^verbatim>\<open>streamEvent.payload\<close>. Handlers return
  normally and do not call back into the bus.
\<close>

datatype 'p argument = Event "'p BusEvent" | Payload "'p option"

type_synonym ('h, 'p) invocation = "nat \<times> 'h \<times> 'p argument"

text \<open>The two shapes of \<^verbatim>\<open>console.log\<close> call in the file: one string, or a string and a descriptor.\<close>

datatype console_line = Log string | Log_object string AppEvent

section \<open>The stream\<close>

text \<open>
  Modelled from the spec: the rxjs \<^verbatim>\<open>Subject\<close>, \<^verbatim>\<open>filter\<close> and \<^verbatim>\<open>Subscription\<close> (the
  opaque stream of the spec: push a value, filter by a predicate, subscribe with a callback,
  a composite subscription with add-child and release-all). A \<^verbatim>\<open>Subject\<close> keeps its
  subscribers in an array, in the order they subscribed. Each subscriber made by
  \<^verbatim>\<open>pipe(filter(p)).subscribe({next: f})\<close> holds the predicate \<open>p\<close> and the callback \<open>f\<close>;
  \<open>sid\<close> is the identity of the subscriber object, which is also the \<^verbatim>\<open>Unsubscribable\<close>
  returned to the caller. The predicate of the legacy \<^verbatim>\<open>on\<close> writes to the console, so a
  predicate returns its console output with its verdict. A subscription is closed exactly
  when its subscriber is no longer in the array.
\<close>

record ('h, 'p) Subscriber =
  sid :: nat
  predicate :: "'p BusEvent \<Rightarrow> console_line list \<times> bool"
  "next" :: "'p BusEvent \<Rightarrow> 'h \<times> 'p argument"

text \<open>
  An \<^verbatim>\<open>EventBusSrv\<close> object has the single field \<^verbatim>\<open>eventStream\<close>. The other fields are
  the environment the methods act on: the console, the record of handler invocations, and
  the counter from which new subscriber objects take their identity.
\<close>

record ('h, 'p) EventBusSrv =
  eventStream :: "('h, 'p) Subscriber list"
  console :: "console_line list"
  invoked :: "('h, 'p) invocation list"
  fresh :: nat

text \<open>\<^verbatim>\<open>new EventBusSrv()\<close>: the constructor makes an empty \<^verbatim>\<open>Subject\<close>.\<close>

definition new_EventBusSrv :: "('h, 'p) EventBusSrv" where
  "new_EventBusSrv = \<lparr>eventStream = [], console = [], invoked = [], fresh = 0\<rparr>"

definition console_log :: "console_line \<Rightarrow> ('h, 'p) EventBusSrv \<Rightarrow> ('h, 'p) EventBusSrv" where
  "console_log line this = this\<lparr>console := console this @ [line]\<rparr>"

text \<open>
  Modelled from the spec: a filtered subscriber receiving a value evaluates the predicate
  and, when it holds, calls \<^verbatim>\<open>next\<close>.
\<close>

definition FilterSubscriber_next ::
  "('h, 'p) Subscriber \<Rightarrow> 'p BusEvent \<Rightarrow> ('h, 'p) EventBusSrv \<Rightarrow> ('h, 'p) EventBusSrv" where
  "FilterSubscriber_next s v this =
     (let this' = this\<lparr>console := console this @ fst (predicate s v)\<rparr>
      in if snd (predicate s v)
         then this'\<lparr>invoked := invoked this' @ [(sid s, next s v)]\<rparr>
         else this')"

text \<open>
  Modelled from the spec: \<^verbatim>\<open>Subject.next(value)\<close> passes the value to every subscriber of
  the array as it is when the call starts, in order, synchronously.
\<close>

definition Subject_next :: "'p BusEvent \<Rightarrow> ('h, 'p) EventBusSrv \<Rightarrow> ('h, 'p) EventBusSrv" where
  "Subject_next v this = foldl (\<lambda>w s. FilterSubscriber_next s v w) this (eventStream this)"

text \<open>
  Modelled from the spec: \<^verbatim>\<open>pipe(filter(p)).subscribe({next: f})\<close> appends a new subscriber
  to the array and returns it. Nothing is delivered at subscription: a \<^verbatim>\<open>Subject\<close> keeps no
  past values.
\<close>

definition pipe_filter_subscribe ::
  "('p BusEvent \<Rightarrow> console_line list \<times> bool) \<Rightarrow> ('p BusEvent \<Rightarrow> 'h \<times> 'p argument) \<Rightarrow>
     ('h, 'p) EventBusSrv \<Rightarrow> nat \<times> ('h, 'p) EventBusSrv" where
  "pipe_filter_subscribe p f this =
     (fresh this,
      this\<lparr>eventStream := eventStream this @ [\<lparr>sid = fresh this, predicate = p, next = f\<rparr>],
           fresh := Suc (fresh this)\<rparr>)"

text \<open>
  Modelled from the spec: \<^verbatim>\<open>unsubscribe()\<close> on the handle removes its subscriber from the
  array; on a closed handle it returns at once.
\<close>

definition unsubscribe :: "nat \<Rightarrow> ('h, 'p) EventBusSrv \<Rightarrow> ('h, 'p) EventBusSrv" where
  "unsubscribe k this = this\<lparr>eventStream := filter (\<lambda>s. sid s \<noteq> k) (eventStream this)\<rparr>"

definition is_closed :: "nat \<Rightarrow> ('h, 'p) EventBusSrv \<Rightarrow> bool" where
  "is_closed k this = (k \<notin> sid ` set (eventStream this))"

text \<open>
  Modelled from the spec: the composite \<^verbatim>\<open>Subscription\<close>. \<^verbatim>\<open>add(child)\<close> returns the child;
  it keeps a child that is open, and a composite that is already closed unsubscribes the
  child at once. \<^verbatim>\<open>unsubscribe()\<close> closes the composite and unsubscribes every child it
  holds; on a closed composite it returns at once. A child that was unsubscribed on its
  own is kept in the list here; unsubscribing it again does nothing.
\<close>

record Subscription =
  closed :: bool
  subscriptions :: "nat list"

definition new_Subscription :: Subscription where
  "new_Subscription = \<lparr>closed = False, subscriptions = []\<rparr>"

definition Subscription_add ::
  "Subscription \<Rightarrow> nat \<Rightarrow> ('h, 'p) EventBusSrv \<Rightarrow> nat \<times> Subscription \<times> ('h, 'p) EventBusSrv" where
  "Subscription_add g child bus =
     (if is_closed child bus then (child, g, bus)
      else if closed g then (child, g, unsubscribe child bus)
      else (child, g\<lparr>subscriptions := subscriptions g @ [child]\<rparr>, bus))"

definition Subscription_unsubscribe ::
  "Subscription \<Rightarrow> ('h, 'p) EventBusSrv \<Rightarrow> Subscription \<times> ('h, 'p) EventBusSrv" where
  "Subscription_unsubscribe g bus =
     (if closed g then (g, bus)
      else (g\<lparr>closed := True, subscriptions := []\<rparr>, fold unsubscribe (subscriptions g) bus))"

section \<open>EventBusSrv\<close>

definition EventBusSrv_dollar_emit ::
  "'p BusEvent \<Rightarrow> ('h, 'p) EventBusSrv \<Rightarrow> ('h, 'p) EventBusSrv" where
  "EventBusSrv_dollar_emit event this = Subject_next event this"

definition EventBusSrv_dollar_on ::
  "BusEventType \<Rightarrow> 'h \<Rightarrow> ('h, 'p) EventBusSrv \<Rightarrow> nat \<times> ('h, 'p) EventBusSrv" where
  "EventBusSrv_dollar_on typeFilter handler this =
     pipe_filter_subscribe
       (\<lambda>event. ([], type event = BusEventType.type typeFilter))
       (\<lambda>event. (handler, Event event))
       this"

text \<open>Legacy \<^verbatim>\<open>emit\<close>: it logs, then pushes an object literal on the stream itself.\<close>

definition EventBusSrv_emit ::
  "nameOrEvent \<Rightarrow> 'p option \<Rightarrow> ('h, 'p) EventBusSrv \<Rightarrow> ('h, 'p) EventBusSrv" where
  "EventBusSrv_emit event payload' this =
     (let this' = console_log (Log ''Deprecated emitter function used (emit), use $emit'') this
      in case event of
           Name n \<Rightarrow> Subject_next \<lparr>type = n, payload = payload'\<rparr> this'
         | Descriptor d \<Rightarrow> Subject_next \<lparr>type = name d, payload = payload'\<rparr> this')"

text \<open>
  Legacy \<^verbatim>\<open>on\<close>: it logs; for a string it returns at once (the registration is commented
  out); for a descriptor it subscribes and drops the handle. The method returns
  \<^verbatim>\<open>undefined\<close> on both paths. The \<^verbatim>\<open>scope\<close> argument is used in commented-out code only.
\<close>

definition EventBusSrv_on ::
  "nameOrEvent \<Rightarrow> 'h \<Rightarrow> ('h, 'p) EventBusSrv \<Rightarrow> ('h, 'p) EventBusSrv" where
  "EventBusSrv_on event handler this =
     (let this' = console_log (Log ''Deprecated emitter function used (on), use $on'') this
      in case event of
           Name n \<Rightarrow> this'
         | Descriptor d \<Rightarrow>
             snd (pipe_filter_subscribe
                    (\<lambda>streamEvent. ([Log_object ''got event'' d], type streamEvent = name d))
                    (\<lambda>streamEvent. (handler, Payload (payload streamEvent)))
                    this'))"

text \<open>
  Legacy \<^verbatim>\<open>off\<close> calls \<^verbatim>\<open>this.emitter.off(...)\<close>. The class declares \<^verbatim>\<open>eventStream\<close> and
  nothing else, and no method assigns \<^verbatim>\<open>emitter\<close>: the property read gives \<^verbatim>\<open>undefined\<close>,
  and the method call on it throws a \<^verbatim>\<open>TypeError\<close>, on both paths, before anything else
  happens. The receiver is an option for that reason. An emitter object, if there were
  one, would keep its own listeners: its \<^verbatim>\<open>off\<close> would not touch the stream.
\<close>

datatype error = TypeError

datatype EventEmitter = EventEmitter

definition emitter :: "('h, 'p) EventBusSrv \<Rightarrow> EventEmitter option" where
  "emitter this = None"

definition emitter_off ::
  "EventEmitter option \<Rightarrow> string \<Rightarrow> 'h \<Rightarrow> ('h, 'p) EventBusSrv \<Rightarrow> error + ('h, 'p) EventBusSrv" where
  "emitter_off receiver n handler this =
     (case receiver of None \<Rightarrow> Inl TypeError | Some e \<Rightarrow> Inr this)"

definition EventBusSrv_off ::
  "nameOrEvent \<Rightarrow> 'h \<Rightarrow> ('h, 'p) EventBusSrv \<Rightarrow> error + ('h, 'p) EventBusSrv" where
  "EventBusSrv_off event handler this =
     (case event of
        Name n \<Rightarrow> emitter_off (emitter this) n handler this
      | Descriptor d \<Rightarrow> emitter_off (emitter this) (name d) handler this)"

section \<open>EventBusGroup\<close>

text \<open>
  A group holds a reference to the bus it wraps and the optional composite \<^verbatim>\<open>groupSub\<close>.
  The wrapped bus is an \<^verbatim>\<open>EventBusSrv\<close>; it is passed to each method with the group.
\<close>

record EventBusGroup =
  groupSub :: "Subscription option"

definition new_EventBusGroup :: EventBusGroup where
  "new_EventBusGroup = \<lparr>groupSub = None\<rparr>"

definition EventBusGroup_dollar_emit ::
  "'p BusEvent \<Rightarrow> EventBusGroup \<Rightarrow> ('h, 'p) EventBusSrv \<Rightarrow> ('h, 'p) EventBusSrv" where
  "EventBusGroup_dollar_emit event this bus = EventBusSrv_dollar_emit event bus"

definition addToGroupSub ::
  "nat \<Rightarrow> EventBusGroup \<Rightarrow> ('h, 'p) EventBusSrv \<Rightarrow> nat \<times> EventBusGroup \<times> ('h, 'p) EventBusSrv" where
  "addToGroupSub childSub this bus =
     (let g = (case groupSub this of None \<Rightarrow> new_Subscription | Some g \<Rightarrow> g);
          (r, g', bus') = Subscription_add g childSub bus
      in (r, this\<lparr>groupSub := Some g'\<rparr>, bus'))"

definition EventBusGroup_dollar_on ::
  "BusEventType \<Rightarrow> 'h \<Rightarrow> EventBusGroup \<Rightarrow> ('h, 'p) EventBusSrv \<Rightarrow>
     nat \<times> EventBusGroup \<times> ('h, 'p) EventBusSrv" where
  "EventBusGroup_dollar_on typeFilter handler this bus =
     (let (childSub, bus') = EventBusSrv_dollar_on typeFilter handler bus
      in addToGroupSub childSub this bus')"

definition EventBusGroup_unsubscribe ::
  "EventBusGroup \<Rightarrow> ('h, 'p) EventBusSrv \<Rightarrow> EventBusGroup \<times> ('h, 'p) EventBusSrv" where
  "EventBusGroup_unsubscribe this bus =
     (case groupSub this of
        None \<Rightarrow> (this, bus)
      | Some g \<Rightarrow> (let (g', bus') = Subscription_unsubscribe g bus
                  in (this\<lparr>groupSub := Some g'\<rparr>, bus')))"

section \<open>Programs over one bus\<close>

text \<open>
  A caller owns one bus, the handles that \<^verbatim>\<open>$on\<close> has returned to it so far (in the order
  they were returned) and groups over that bus. Constructing a group touches nothing, so
  every group number stands for a group constructed on the bus, with no \<^verbatim>\<open>groupSub\<close> yet.
\<close>

record ('h, 'p) client =
  bus :: "('h, 'p) EventBusSrv"
  handles :: "nat list"
  groups :: "nat \<Rightarrow> EventBusGroup"

definition init :: "('h, 'p) client" where
  "init = \<lparr>bus = new_EventBusSrv, handles = [], groups = (\<lambda>g. new_EventBusGroup)\<rparr>"

text \<open>
  The calls a caller can make. \<open>Handle_unsubscribe k\<close> is \<^verbatim>\<open>unsubscribe()\<close> on the \<open>k\<close>-th
  handle it was given; the group calls name the group.
\<close>

datatype ('h, 'p) call =
    Dollar_emit "'p BusEvent"
  | Dollar_on BusEventType 'h
  | Handle_unsubscribe nat
  | Legacy_emit nameOrEvent "'p option"
  | Legacy_on nameOrEvent 'h
  | Legacy_off nameOrEvent 'h
  | Group_dollar_emit nat "'p BusEvent"
  | Group_dollar_on nat BusEventType 'h
  | Group_unsubscribe nat

datatype returned = Undefined | Handle nat

text \<open>
  One call: what it returns or throws, and the state after it. A call that throws leaves
  the state as it was when the exception left the method. A number that is not yet a
  handle of the caller denotes no object, and the call is not made.
\<close>

fun exec :: "('h, 'p) call \<Rightarrow> ('h, 'p) client \<Rightarrow> (error + returned) \<times> ('h, 'p) client" where
  "exec (Dollar_emit e) st = (Inr Undefined, st\<lparr>bus := EventBusSrv_dollar_emit e (bus st)\<rparr>)"
| "exec (Dollar_on tf h) st =
     (let (k, b) = EventBusSrv_dollar_on tf h (bus st)
      in (Inr (Handle k), st\<lparr>bus := b, handles := handles st @ [k]\<rparr>))"
| "exec (Handle_unsubscribe i) st =
     (if i < length (handles st)
      then (Inr Undefined, st\<lparr>bus := unsubscribe (handles st ! i) (bus st)\<rparr>)
      else (Inr Undefined, st))"
| "exec (Legacy_emit ev p) st = (Inr Undefined, st\<lparr>bus := EventBusSrv_emit ev p (bus st)\<rparr>)"
| "exec (Legacy_on ev h) st = (Inr Undefined, st\<lparr>bus := EventBusSrv_on ev h (bus st)\<rparr>)"
| "exec (Legacy_off ev h) st =
     (case EventBusSrv_off ev h (bus st) of
        Inl err \<Rightarrow> (Inl err, st)
      | Inr b \<Rightarrow> (Inr Undefined, st\<lparr>bus := b\<rparr>))"
| "exec (Group_dollar_emit g e) st =
     (Inr Undefined, st\<lparr>bus := EventBusGroup_dollar_emit e (groups st g) (bus st)\<rparr>)"
| "exec (Group_dollar_on g tf h) st =
     (let (k, grp, b) = EventBusGroup_dollar_on tf h (groups st g) (bus st)
      in (Inr (Handle k), st\<lparr>bus := b, handles := handles st @ [k], groups := (groups st)(g := grp)\<rparr>))"
| "exec (Group_unsubscribe g) st =
     (let (grp, b) = EventBusGroup_unsubscribe (groups st g) (bus st)
      in (Inr Undefined, st\<lparr>bus := b, groups := (groups st)(g := grp)\<rparr>))"

definition step :: "('h, 'p) call \<Rightarrow> ('h, 'p) client \<Rightarrow> ('h, 'p) client" where
  "step c st = snd (exec c st)"

definition run :: "('h, 'p) call list \<Rightarrow> ('h, 'p) client \<Rightarrow> ('h, 'p) client" where
  "run cs st = fold step cs st"

section \<open>What a history shows\<close>

text \<open>
  What one pushed value causes on a list of subscribers: the invocations made and the
  console lines written, in the order of the list.
\<close>

definition deliveries :: "'p BusEvent \<Rightarrow> ('h, 'p) Subscriber list \<Rightarrow> ('h, 'p) invocation list" where
  "deliveries v ss = concat (map (\<lambda>s. if snd (predicate s v) then [(sid s, next s v)] else []) ss)"

definition chatter :: "'p BusEvent \<Rightarrow> ('h, 'p) Subscriber list \<Rightarrow> console_line list" where
  "chatter v ss = concat (map (\<lambda>s. fst (predicate s v)) ss)"

text \<open>The value a call pushes on the stream, if it pushes one, and the values a history pushes.\<close>

fun pushed :: "('h, 'p) call \<Rightarrow> 'p BusEvent option" where
  "pushed (Dollar_emit e) = Some e"
| "pushed (Group_dollar_emit g e) = Some e"
| "pushed (Legacy_emit (Name n) p) = Some \<lparr>type = n, payload = p\<rparr>"
| "pushed (Legacy_emit (Descriptor d) p) = Some \<lparr>type = name d, payload = p\<rparr>"
| "pushed _ = None"

definition emitted :: "('h, 'p) call list \<Rightarrow> 'p BusEvent list" where
  "emitted cs = concat (map (\<lambda>c. case pushed c of None \<Rightarrow> [] | Some e \<Rightarrow> [e]) cs)"

text \<open>The invocations one subscriber has made so far: handler and argument, oldest first.\<close>

definition received :: "nat \<Rightarrow> ('h, 'p) EventBusSrv \<Rightarrow> ('h \<times> 'p argument) list" where
  "received s this = map snd (filter (\<lambda>c. fst c = s) (invoked this))"

text \<open>Every subscriber identity in use lies below the counter.\<close>

definition allocated :: "('h, 'p) client \<Rightarrow> bool" where
  "allocated st \<longleftrightarrow>
     (\<forall>s \<in> set (eventStream (bus st)). sid s < fresh (bus st)) \<and>
     (\<forall>k \<in> set (handles st). k < fresh (bus st)) \<and>
     (\<forall>c \<in> set (invoked (bus st)). fst c < fresh (bus st)) \<and>
     (\<forall>g sub. groupSub (groups st g) = Some sub \<longrightarrow>
        (\<forall>k \<in> set (subscriptions sub). k < fresh (bus st)))"

text \<open>
  Subscriber \<open>s\<close> exists and the caller can reach it through the handles numbered in \<open>K\<close>
  at most: it is no other handle of the caller and no child of a group.
\<close>

definition protected :: "nat \<Rightarrow> nat set \<Rightarrow> ('h, 'p) client \<Rightarrow> bool" where
  "protected s K st \<longleftrightarrow>
     s < fresh (bus st) \<and>
     (\<forall>i < length (handles st). handles st ! i = s \<longrightarrow> i \<in> K) \<and>
     (\<forall>g sub. groupSub (groups st g) = Some sub \<longrightarrow> s \<notin> set (subscriptions sub))"

text \<open>Subscriber \<open>s\<close> has existed and is no longer in the array.\<close>

definition gone :: "nat \<Rightarrow> ('h, 'p) client \<Rightarrow> bool" where
  "gone s st \<longleftrightarrow> s < fresh (bus st) \<and> s \<notin> sid ` set (eventStream (bus st))"

text \<open>Two states that differ in the console at most.\<close>

definition same_but_console :: "('h, 'p) client \<Rightarrow> ('h, 'p) client \<Rightarrow> bool" where
  "same_but_console st st' \<longleftrightarrow>
     eventStream (bus st) = eventStream (bus st') \<and> invoked (bus st) = invoked (bus st') \<and>
     fresh (bus st) = fresh (bus st') \<and> handles st = handles st' \<and> groups st = groups st'"

section \<open>The registry of a history\<close>

text \<open>
  The claims speak of the subscriptions registered and not yet unsubscribed. This is that
  notion as a function of the history of calls alone, with no stream: a registration is
  written down when \<^verbatim>\<open>$on\<close> (of the bus or of a group) or the legacy \<^verbatim>\<open>on\<close> with a
  descriptor is called, with the tag it was registered for, its handler, the number of the
  handle returned for it and the group it was made through; it is struck out when its
  handle or its group is unsubscribed. A group that was unsubscribed after a subscription
  had been made through it stays shut: a later registration through it is struck out at
  once.
\<close>

record 'h registration =
  subscriber :: nat
  handle_no :: "nat option"
  via :: "nat option"
  typed :: bool
  tag :: string
  callback :: 'h

record 'h registry =
  live :: "'h registration list"
  made :: nat
  issued :: nat
  opened :: "nat set"
  shut :: "nat set"

definition empty_registry :: "'h registry" where
  "empty_registry = \<lparr>live = [], made = 0, issued = 0, opened = {}, shut = {}\<rparr>"

fun record_call :: "('h, 'p) call \<Rightarrow> 'h registry \<Rightarrow> 'h registry" where
  "record_call (Dollar_on tf h) R =
     R\<lparr>live := live R @ [\<lparr>subscriber = made R, handle_no = Some (issued R), via = None,
                           typed = True, tag = BusEventType.type tf, callback = h\<rparr>],
       made := Suc (made R), issued := Suc (issued R)\<rparr>"
| "record_call (Group_dollar_on g tf h) R =
     R\<lparr>live := live R @
         (if g \<in> shut R then []
          else [\<lparr>subscriber = made R, handle_no = Some (issued R), via = Some g,
                 typed = True, tag = BusEventType.type tf, callback = h\<rparr>]),
       made := Suc (made R), issued := Suc (issued R), opened := insert g (opened R)\<rparr>"
| "record_call (Legacy_on (Descriptor d) h) R =
     R\<lparr>live := live R @ [\<lparr>subscriber = made R, handle_no = None, via = None,
                           typed = False, tag = name d, callback = h\<rparr>],
       made := Suc (made R)\<rparr>"
| "record_call (Handle_unsubscribe i) R =
     R\<lparr>live := filter (\<lambda>r. handle_no r \<noteq> Some i) (live R)\<rparr>"
| "record_call (Group_unsubscribe g) R =
     R\<lparr>live := filter (\<lambda>r. via r \<noteq> Some g) (live R),
       shut := (if g \<in> opened R then insert g (shut R) else shut R)\<rparr>"
| "record_call _ R = R"

definition registered :: "('h, 'p) call list \<Rightarrow> 'h registration list" where
  "registered cs = live (fold record_call cs empty_registry)"

text \<open>The invocation a live registration makes for an event of its tag.\<close>

definition delivery :: "'p BusEvent \<Rightarrow> 'h registration \<Rightarrow> ('h, 'p) invocation" where
  "delivery e r = (subscriber r, callback r, if typed r then Event e else Payload (payload e))"

text \<open>A subscriber of the stream stands for a registration of the registry.\<close>

definition stands_for :: "('h, 'p) Subscriber \<Rightarrow> 'h registration \<Rightarrow> bool" where
  "stands_for s r \<longleftrightarrow>
     sid s = subscriber r \<and>
     (\<forall>e. snd (predicate s e) = (type e = tag r)) \<and>
     (\<forall>e. next s e = snd (delivery e r))"

text \<open>The state of the caller and its bus agrees with a registry.\<close>

definition refines :: "('h, 'p) client \<Rightarrow> 'h registry \<Rightarrow> bool" where
  "refines st R \<longleftrightarrow>
     list_all2 stands_for (eventStream (bus st)) (live R) \<and>
     fresh (bus st) = made R \<and>
     length (handles st) = issued R \<and>
     (\<forall>i < issued R. handles st ! i < made R) \<and>
     (\<forall>r \<in> set (live R). subscriber r < made R) \<and>
     (\<forall>r \<in> set (live R). \<forall>i. handle_no r = Some i \<longrightarrow> i < issued R) \<and>
     (\<forall>r \<in> set (live R). \<forall>i < issued R. (handles st ! i = subscriber r) = (handle_no r = Some i)) \<and>
     (\<forall>r \<in> set (live R). \<forall>g. via r = Some g \<longrightarrow> g \<in> opened R) \<and>
     (\<forall>g. (g \<in> opened R) = (groupSub (groups st g) \<noteq> None)) \<and>
     shut R \<subseteq> opened R \<and>
     (\<forall>g sub. groupSub (groups st g) = Some sub \<longrightarrow>
        closed sub = (g \<in> shut R) \<and>
        (closed sub \<longrightarrow> subscriptions sub = []) \<and>
        (\<forall>k \<in> set (subscriptions sub). k < made R) \<and>
        (\<forall>r \<in> set (live R). (subscriber r \<in> set (subscriptions sub)) = (via r = Some g)))"

section \<open>Basic facts about the stream and about histories\<close>

lemma foldl_FilterSubscriber_next:
  "foldl (\<lambda>w s. FilterSubscriber_next s v w) w ss =
     w\<lparr>console := console w @ chatter v ss, invoked := invoked w @ deliveries v ss\<rparr>"
  by (induction ss arbitrary: w)
    (simp_all add: FilterSubscriber_next_def deliveries_def chatter_def Let_def)

lemma Subject_next_eq:
  "Subject_next v w =
     w\<lparr>console := console w @ chatter v (eventStream w),
       invoked := invoked w @ deliveries v (eventStream w)\<rparr>"
  by (simp add: Subject_next_def foldl_FilterSubscriber_next)

lemma fold_unsubscribe:
  "fold unsubscribe ks w = w\<lparr>eventStream := filter (\<lambda>s. sid s \<notin> set ks) (eventStream w)\<rparr>"
  by (induction ks arbitrary: w) (auto simp: unsubscribe_def intro!: filter_cong)

lemma deliveries_append [simp]: "deliveries v (ss @ ts) = deliveries v ss @ deliveries v ts"
  by (simp add: deliveries_def)

lemma deliveries_Nil [simp]: "deliveries v [] = []"
  by (simp add: deliveries_def)

lemmas bus_defs =
  EventBusSrv_dollar_emit_def EventBusSrv_dollar_on_def EventBusSrv_emit_def EventBusSrv_on_def
  EventBusSrv_off_def emitter_def emitter_off_def console_log_def pipe_filter_subscribe_def
  Subject_next_eq unsubscribe_def

lemmas group_defs =
  EventBusGroup_dollar_emit_def EventBusGroup_dollar_on_def EventBusGroup_unsubscribe_def
  addToGroupSub_def Subscription_add_def Subscription_unsubscribe_def new_Subscription_def
  is_closed_def fold_unsubscribe

lemmas init_defs = init_def new_EventBusSrv_def new_EventBusGroup_def

lemma run_Nil [simp]: "run [] st = st"
  by (simp add: run_def)

lemma run_Cons [simp]: "run (c # cs) st = run cs (step c st)"
  by (simp add: run_def)

lemma run_append [simp]: "run (cs @ ds) st = run ds (run cs st)"
  by (simp add: run_def)

lemma invoked_step:
  "invoked (bus (step c st)) =
     invoked (bus st) @
       (case pushed c of None \<Rightarrow> [] | Some e \<Rightarrow> deliveries e (eventStream (bus st)))"
  by (cases c rule: pushed.cases)
    (auto simp: step_def bus_defs group_defs Let_def
          split: prod.splits option.splits nameOrEvent.splits)

section \<open>The legacy functions\<close>

text \<open>
  C5. Legacy \<^verbatim>\<open>emit\<close> writes its deprecation line and then pushes one record on the shared
  stream with the stream's own \<^verbatim>\<open>next\<close>: for a string \<open>n\<close> the record \<^verbatim>\<open>{type: n, payload}\<close>,
  for a descriptor \<open>d\<close> the record \<^verbatim>\<open>{type: d.name, payload}\<close>. The descriptor's \<^verbatim>\<open>name\<close> is
  the field read. The handlers invoked are those the stream invokes for that record.
\<close>

theorem legacy_emit_pushes_record:
  "EventBusSrv_emit ev p this =
     Subject_next \<lparr>type = (case ev of Name n \<Rightarrow> n | Descriptor d \<Rightarrow> name d), payload = p\<rparr>
       (console_log (Log ''Deprecated emitter function used (emit), use $emit'') this) \<and>
   invoked (EventBusSrv_emit ev p this) =
     invoked this @
       deliveries \<lparr>type = (case ev of Name n \<Rightarrow> n | Descriptor d \<Rightarrow> name d), payload = p\<rparr>
         (eventStream this)"
  by (cases ev) (simp_all add: bus_defs)

text \<open>
  Legacy \<^verbatim>\<open>off\<close> throws on every input and changes nothing: it reads the member
  \<^verbatim>\<open>emitter\<close>, which the class does not have.
\<close>

lemma off_throws: "exec (Legacy_off ev h) st = (Inl TypeError, st)"
  by (cases ev) (simp_all add: bus_defs)

text \<open>
  C7. The claim is that legacy \<^verbatim>\<open>off\<close> removes a handler registered under the event name
  and never raises. On the code, after \<^verbatim>\<open>on(foo, h)\<close> with the descriptor \<^verbatim>\<open>foo\<close>, the call
  \<^verbatim>\<open>off(foo, h)\<close> throws a \<^verbatim>\<open>TypeError\<close>, and a later \<^verbatim>\<open>emit(foo, 1)\<close> still invokes \<open>h\<close>.
\<close>

theorem off_throws_and_removes_nothing:
  "fst (exec (Legacy_off (Descriptor \<lparr>name = ''foo''\<rparr>) (7::nat))
         (run [Legacy_on (Descriptor \<lparr>name = ''foo''\<rparr>) 7] (init :: (nat, int) client))) =
     Inl TypeError \<and>
   invoked (bus (run [Legacy_on (Descriptor \<lparr>name = ''foo''\<rparr>) (7::nat),
                      Legacy_off (Descriptor \<lparr>name = ''foo''\<rparr>) 7,
                      Legacy_emit (Descriptor \<lparr>name = ''foo''\<rparr>) (Some (1::int))] init)) =
     [(0, 7, Payload (Some 1))]"
  by (simp add: step_def init_defs bus_defs deliveries_def chatter_def)

text \<open>Legacy \<^verbatim>\<open>emit\<close> and \<^verbatim>\<open>on\<close> write their deprecation line on every call.\<close>

lemma legacy_emit_logs:
  "console (EventBusSrv_emit ev p this) =
     console this @ Log ''Deprecated emitter function used (emit), use $emit'' #
       chatter \<lparr>type = (case ev of Name n \<Rightarrow> n | Descriptor d \<Rightarrow> name d), payload = p\<rparr>
         (eventStream this)"
  by (cases ev) (simp_all add: bus_defs)

lemma legacy_on_logs:
  "console (EventBusSrv_on ev h this) =
     console this @ [Log ''Deprecated emitter function used (on), use $on'']"
  by (cases ev) (simp_all add: bus_defs)

text \<open>
  C8. The claim is that every legacy call, \<^verbatim>\<open>off\<close> included, writes a deprecation notice.
  On the code, \<^verbatim>\<open>off\<close> on a new bus leaves the console empty, for a string and for a
  descriptor.
\<close>

theorem off_logs_nothing:
  "console (bus (run [Legacy_off (Name ''foo'') (7::nat)] (init :: (nat, int) client))) = [] \<and>
   console (bus (run [Legacy_off (Descriptor \<lparr>name = ''foo''\<rparr>) (7::nat)]
                   (init :: (nat, int) client))) = []"
  by (simp add: step_def init_defs bus_defs)

section \<open>Following one subscriber through a history\<close>

lemmas step_defs = step_def bus_defs group_defs Let_def

lemma allocated_init: "allocated init"
  by (simp add: allocated_def init_defs)

lemma allocated_step: "allocated st \<Longrightarrow> allocated (step c st)"
  by (cases c)
    (auto simp: allocated_def step_defs deliveries_def less_Suc_eq
      split: prod.splits option.splits nameOrEvent.splits if_splits dest!: nth_mem)

lemma allocated_run: "allocated st \<Longrightarrow> allocated (run cs st)"
  by (induction cs arbitrary: st) (simp_all add: allocated_step)

lemma filter_deliveries:
  "filter (\<lambda>c. fst c = s) (deliveries e ss) = deliveries e (filter (\<lambda>x. sid x = s) ss)"
  by (induction ss) (simp_all add: deliveries_def)

lemma received_step:
  "received s (bus (step c st)) =
     received s (bus st) @
       (case pushed c of None \<Rightarrow> []
        | Some e \<Rightarrow> map snd (deliveries e (filter (\<lambda>x. sid x = s) (eventStream (bus st)))))"
  by (simp add: received_def invoked_step filter_deliveries split: option.splits)

lemma handles_step: "\<exists>more. handles (step c st) = handles st @ more"
  by (cases c)
    (auto simp: step_defs split: prod.splits option.splits nameOrEvent.splits if_splits)

lemma handles_run: "\<exists>more. handles (run cs st) = handles st @ more"
proof (induction cs arbitrary: st)
  case Nil
  show ?case by simp
next
  case (Cons c cs)
  obtain m1 where m1: "handles (step c st) = handles st @ m1"
    using handles_step by blast
  obtain m2 where "handles (run cs (step c st)) = handles (step c st) @ m2"
    using Cons.IH by blast
  with m1 show ?case by simp
qed

lemma protected_step:
  assumes "protected s K st" and "c \<notin> Handle_unsubscribe ` K"
  shows "protected s K (step c st)"
    and "filter (\<lambda>x. sid x = s) (eventStream (bus (step c st))) =
         filter (\<lambda>x. sid x = s) (eventStream (bus st))"
  using assms
  by (cases c;
      auto simp: protected_def step_defs nth_append less_Suc_eq
        split: prod.splits option.splits nameOrEvent.splits if_splits
        intro!: filter_cong)+

lemma gone_step:
  assumes "gone s st"
  shows "gone s (step c st)"
  using assms
  by (cases c)
    (auto simp: gone_def step_defs 
        split: prod.splits option.splits nameOrEvent.splits if_splits)


lemma emitted_Nil [simp]: "emitted [] = []"
  by (simp add: emitted_def)

lemma emitted_Cons:
  "emitted (c # cs) = (case pushed c of None \<Rightarrow> [] | Some e \<Rightarrow> [e]) @ emitted cs"
  by (simp add: emitted_def)

lemma emitted_append [simp]: "emitted (cs @ ds) = emitted cs @ emitted ds"
  by (simp add: emitted_def)

lemma protected_run:
  assumes "protected s K st" and "\<forall>c \<in> set cs. c \<notin> Handle_unsubscribe ` K"
  shows "protected s K (run cs st) \<and>
         filter (\<lambda>x. sid x = s) (eventStream (bus (run cs st))) =
           filter (\<lambda>x. sid x = s) (eventStream (bus st)) \<and>
         received s (bus (run cs st)) =
           received s (bus st) @
             concat (map (\<lambda>e. map snd (deliveries e (filter (\<lambda>x. sid x = s) (eventStream (bus st)))))
                      (emitted cs))"
  using assms
proof (induction cs arbitrary: st)
  case Nil
  then show ?case by simp
next
  case (Cons c cs)
  have c: "c \<notin> Handle_unsubscribe ` K" and cs: "\<forall>c \<in> set cs. c \<notin> Handle_unsubscribe ` K"
    using Cons.prems(2) by simp_all
  note one = protected_step [OF Cons.prems(1) c]
  note rest = Cons.IH [OF one(1) cs]
  show ?case
    using rest
    by (simp add: one(2) received_step emitted_Cons split: option.splits)
qed

lemma gone_run:
  assumes "gone s st"
  shows "gone s (run cs st) \<and> received s (bus (run cs st)) = received s (bus st)"
  using assms
proof (induction cs arbitrary: st)
  case Nil
  then show ?case by simp
next
  case (Cons c cs)
  have "filter (\<lambda>x. sid x = s) (eventStream (bus st)) = []"
    using Cons.prems by (auto simp: gone_def filter_empty_conv)
  then have "received s (bus (step c st)) = received s (bus st)"
    by (simp add: received_step split: option.splits)
  then show ?case
    using Cons.IH [OF gone_step [OF Cons.prems]] by simp
qed

lemma concat_map_if:
  "concat (map (\<lambda>x. if P x then [f x] else []) xs) = map f (filter P xs)"
  by (induction xs) simp_all

lemma received_fresh:
  assumes "allocated st"
  shows "received (fresh (bus st)) (bus st) = []"
  using assms by (auto simp: allocated_def received_def filter_empty_conv)

lemma filter_sid_fresh:
  assumes "allocated st"
  shows "filter (\<lambda>x. sid x = fresh (bus st)) (eventStream (bus st)) = []"
  using assms by (auto simp: allocated_def filter_empty_conv)

lemma step_Dollar_on:
  "step (Dollar_on tf h) st =
     st\<lparr>bus := (bus st)\<lparr>eventStream := eventStream (bus st) @
                    [\<lparr>sid = fresh (bus st),
                      predicate = (\<lambda>event. ([], type event = BusEventType.type tf)),
                      next = (\<lambda>event. (h, Event event))\<rparr>],
                  fresh := Suc (fresh (bus st))\<rparr>,
        handles := handles st @ [fresh (bus st)]\<rparr>"
  by (simp add: step_def bus_defs)

lemma step_Legacy_on_Descriptor:
  "step (Legacy_on (Descriptor d) h) st =
     st\<lparr>bus := (bus st)\<lparr>eventStream := eventStream (bus st) @
                    [\<lparr>sid = fresh (bus st),
                      predicate = (\<lambda>streamEvent. ([Log_object ''got event'' d], type streamEvent = name d)),
                      next = (\<lambda>streamEvent. (h, Payload (payload streamEvent)))\<rparr>],
                  console := console (bus st) @ [Log ''Deprecated emitter function used (on), use $on''],
                  fresh := Suc (fresh (bus st))\<rparr>\<rparr>"
  by (simp add: step_def bus_defs)

lemma step_Handle_unsubscribe:
  "step (Handle_unsubscribe i) st =
     (if i < length (handles st)
      then st\<lparr>bus := (bus st)\<lparr>eventStream :=
                  filter (\<lambda>s. sid s \<noteq> handles st ! i) (eventStream (bus st))\<rparr>\<rparr>
      else st)"
  by (simp add: step_def bus_defs)

lemma fresh_unused:
  assumes "allocated st"
  shows "\<forall>k \<in> set (handles st). k \<noteq> fresh (bus st)"
    and "\<forall>g sub. groupSub (groups st g) = Some sub \<longrightarrow> fresh (bus st) \<notin> set (subscriptions sub)"
proof -
  show "\<forall>k \<in> set (handles st). k \<noteq> fresh (bus st)"
    using assms by (auto simp: allocated_def)
  show "\<forall>g sub. groupSub (groups st g) = Some sub \<longrightarrow> fresh (bus st) \<notin> set (subscriptions sub)"
  proof (intro allI impI notI)
    fix g sub
    assume "groupSub (groups st g) = Some sub" and "fresh (bus st) \<in> set (subscriptions sub)"
    moreover have "\<forall>g sub. groupSub (groups st g) = Some sub \<longrightarrow>
        (\<forall>k \<in> set (subscriptions sub). k < fresh (bus st))"
      using assms by (simp add: allocated_def)
    ultimately have "fresh (bus st) < fresh (bus st)"
      by blast
    then show False by simp
  qed
qed

lemma protected_after_dollar_on:
  assumes "allocated st"
  shows "protected (fresh (bus st)) {length (handles st)} (step (Dollar_on tf h) st)"
proof -
  have "\<And>i. i < length (handles st) \<Longrightarrow> handles st ! i \<noteq> fresh (bus st)"
    using fresh_unused(1) [OF assms] nth_mem by blast
  then show ?thesis
    using fresh_unused(2) [OF assms]
    by (simp add: protected_def step_Dollar_on nth_append)
qed

lemma protected_after_legacy_on:
  assumes "allocated st"
  shows "protected (fresh (bus st)) {} (step (Legacy_on (Descriptor d) h) st)"
proof -
  have "\<And>i. i < length (handles st) \<Longrightarrow> handles st ! i \<noteq> fresh (bus st)"
    using fresh_unused(1) [OF assms] nth_mem by blast
  then show ?thesis
    using fresh_unused(2) [OF assms]
    by (simp add: protected_def step_Legacy_on_Descriptor)
qed

lemma gone_after_unsubscribe:
  assumes "i < length (handles st)" and "handles st ! i = s" and "s < fresh (bus st)"
  shows "gone s (step (Handle_unsubscribe i) st)"
  using assms by (auto simp: gone_def step_Handle_unsubscribe)

section \<open>Subscriptions over time\<close>

text \<open>
  What the subscriber made by a \<^verbatim>\<open>$on\<close> call has received at the end of a history: the
  events of its tag pushed after the call and before the first \<^verbatim>\<open>unsubscribe()\<close> of the
  handle the call returned.
\<close>

lemma received_after_dollar_on:
  "received (fresh (bus (run pre init))) (bus (run (pre @ Dollar_on tf h # rest) init)) =
     map (\<lambda>e. (h, Event e))
       (filter (\<lambda>e. type e = BusEventType.type tf)
          (emitted (takeWhile (\<lambda>c. c \<noteq> Handle_unsubscribe (length (handles (run pre init)))) rest)))"
proof -
  define st0 :: "('a, 'b) client" where "st0 = run pre init"
  define s where "s = fresh (bus st0)"
  define k where "k = length (handles st0)"
  define st1 where "st1 = step (Dollar_on tf h) st0"
  define mid where "mid = takeWhile (\<lambda>c. c \<noteq> Handle_unsubscribe k) rest"
  define post where "post = dropWhile (\<lambda>c. c \<noteq> Handle_unsubscribe k) rest"
  define sub :: "('a, 'b) Subscriber" where
    "sub = \<lparr>sid = s, predicate = (\<lambda>event. ([], type event = BusEventType.type tf)),
            next = (\<lambda>event. (h, Event event))\<rparr>"
  have alloc: "allocated st0"
    by (simp add: st0_def allocated_run allocated_init)
  have prot: "protected s {k} st1"
    unfolding s_def k_def st1_def by (rule protected_after_dollar_on [OF alloc])
  have mine: "filter (\<lambda>x. sid x = s) (eventStream (bus st1)) = [sub]"
    using filter_sid_fresh [OF alloc] by (simp add: st1_def sub_def s_def step_defs)
  have none: "received s (bus st1) = []"
    using received_fresh [OF alloc] by (simp add: st1_def s_def received_step)
  have hk: "k < length (handles st1) \<and> handles st1 ! k = s"
    by (simp add: st1_def k_def s_def step_defs)
  have safe: "\<forall>c \<in> set mid. c \<notin> Handle_unsubscribe ` {k}"
    by (auto simp: mid_def dest: set_takeWhileD)
  note tracked = protected_run [OF prot safe]
  have one: "\<And>e. map snd (deliveries e [sub]) =
      (if type e = BusEventType.type tf then [(h, Event e)] else [])"
    by (simp add: deliveries_def sub_def)
  have got: "received s (bus (run mid st1)) =
      map (\<lambda>e. (h, Event e)) (filter (\<lambda>e. type e = BusEventType.type tf) (emitted mid))"
    using tracked by (simp add: mine none one concat_map_if)
  have split: "rest = mid @ post"
    by (simp add: mid_def post_def)
  have after: "received s (bus (run post (run mid st1))) = received s (bus (run mid st1))"
  proof (cases post)
    case Nil
    then show ?thesis by simp
  next
    case (Cons c cs)
    then have "dropWhile (\<lambda>c. c \<noteq> Handle_unsubscribe k) rest = c # cs"
      unfolding post_def .
    then have c: "c = Handle_unsubscribe k"
      using hd_dropWhile [of "\<lambda>c. c \<noteq> Handle_unsubscribe k" rest] by simp
    obtain more where more: "handles (run mid st1) = handles st1 @ more"
      using handles_run by blast
    have hk': "k < length (handles (run mid st1))" "handles (run mid st1) ! k = s"
      using hk by (simp_all add: more nth_append)
    have "s < fresh (bus (run mid st1))"
      using tracked [THEN conjunct1] by (simp add: protected_def)
    with hk' have "gone s (step c (run mid st1))"
      unfolding c by (rule gone_after_unsubscribe)
    from gone_run [OF this, of cs]
    have "received s (bus (run cs (step c (run mid st1)))) = received s (bus (step c (run mid st1)))"
      by simp
    then show ?thesis
      by (simp add: Cons c received_step)
  qed
  have "run (pre @ Dollar_on tf h # rest) init = run (mid @ post) st1"
    unfolding st1_def st0_def split [symmetric] by simp
  then have "received s (bus (run (pre @ Dollar_on tf h # rest) init)) =
      map (\<lambda>e. (h, Event e)) (filter (\<lambda>e. type e = BusEventType.type tf) (emitted mid))"
    by (simp only: run_append after got)
  then show ?thesis
    unfolding mid_def k_def s_def st0_def .
qed


text \<open>
  What the subscriber made by the legacy \<^verbatim>\<open>on\<close> with a descriptor has received at the end of
  a history: the payload of every event of that name pushed after the call.
\<close>

lemma received_after_legacy_on:
  "received (fresh (bus (run pre init))) (bus (run (pre @ Legacy_on (Descriptor d) h # rest) init)) =
     map (\<lambda>e. (h, Payload (payload e))) (filter (\<lambda>e. type e = name d) (emitted rest))"
proof -
  define st0 :: "('a, 'b) client" where "st0 = run pre init"
  define s where "s = fresh (bus st0)"
  define st1 where "st1 = step (Legacy_on (Descriptor d) h) st0"
  define sub :: "('a, 'b) Subscriber" where
    "sub = \<lparr>sid = s,
            predicate = (\<lambda>streamEvent. ([Log_object ''got event'' d], type streamEvent = name d)),
            next = (\<lambda>streamEvent. (h, Payload (payload streamEvent)))\<rparr>"
  have alloc: "allocated st0"
    by (simp add: st0_def allocated_run allocated_init)
  have prot: "protected s {} st1"
    unfolding s_def st1_def by (rule protected_after_legacy_on [OF alloc])
  have mine: "filter (\<lambda>x. sid x = s) (eventStream (bus st1)) = [sub]"
    using filter_sid_fresh [OF alloc] by (simp add: st1_def sub_def s_def step_Legacy_on_Descriptor)
  have none: "received s (bus st1) = []"
    using received_fresh [OF alloc] by (simp add: st1_def s_def received_step)
  have safe: "\<forall>c \<in> set rest. c \<notin> Handle_unsubscribe ` {}"
    by simp
  note tracked = protected_run [OF prot safe]
  have one: "\<And>e. map snd (deliveries e [sub]) =
      (if type e = name d then [(h, Payload (payload e))] else [])"
    by (simp add: deliveries_def sub_def)
  have got: "received s (bus (run rest st1)) =
      map (\<lambda>e. (h, Payload (payload e))) (filter (\<lambda>e. type e = name d) (emitted rest))"
    using tracked by (simp add: mine none one concat_map_if)
  have "run (pre @ Legacy_on (Descriptor d) h # rest) init = run rest st1"
    unfolding st1_def st0_def by simp
  then show ?thesis
    using got unfolding s_def st0_def by simp
qed

text \<open>
  C2. Take any history, a \<^verbatim>\<open>$on\<close> call at any place in it, and the calls after it. The
  handler of that call is passed exactly the events of its tag that are pushed after the
  call and before the first \<^verbatim>\<open>unsubscribe()\<close> on the handle the call returned, each once and
  in the order pushed: no event pushed before the subscription, and none pushed after the
  unsubscription.
\<close>

theorem no_replay:
  "received (fresh (bus (run pre init))) (bus (run (pre @ Dollar_on tf h # rest) init)) =
     map (\<lambda>e. (h, Event e))
       (filter (\<lambda>e. type e = BusEventType.type tf)
          (emitted (takeWhile (\<lambda>c. c \<noteq> Handle_unsubscribe (length (handles (run pre init)))) rest)))"
  by (rule received_after_dollar_on)

theorem no_replay_witness:
  "received 0 (bus (run ([Dollar_emit \<lparr>type = ''A'', payload = Some (1::int)\<rparr>] @
       Dollar_on (BusEventType ''A'') (7::nat) #
       [Dollar_emit \<lparr>type = ''A'', payload = Some 42\<rparr>, Dollar_emit \<lparr>type = ''B'', payload = Some 5\<rparr>,
        Handle_unsubscribe 0, Dollar_emit \<lparr>type = ''A'', payload = Some 7\<rparr>]) init)) =
     [(7, Event \<lparr>type = ''A'', payload = Some 42\<rparr>)]"
  using no_replay [of "[Dollar_emit \<lparr>type = ''A'', payload = Some (1::int)\<rparr>]"
      "BusEventType ''A''" "7::nat"
      "[Dollar_emit \<lparr>type = ''A'', payload = Some 42\<rparr>, Dollar_emit \<lparr>type = ''B'', payload = Some 5\<rparr>,
        Handle_unsubscribe 0, Dollar_emit \<lparr>type = ''A'', payload = Some 7\<rparr>]"]
  by (simp add: step_def init_defs bus_defs emitted_def)

text \<open>
  C10. The legacy \<^verbatim>\<open>on\<close> with a descriptor returns \<^verbatim>\<open>undefined\<close> and gives the caller no
  handle, and the subscriber it makes is passed the payload of every event of the
  descriptor's name pushed later, whatever calls the history makes after it.
\<close>

theorem legacy_on_descriptor_stays:
  "exec (Legacy_on (Descriptor d) h) st = (Inr Undefined, step (Legacy_on (Descriptor d) h) st) \<and>
   handles (step (Legacy_on (Descriptor d) h) st) = handles st \<and>
   received (fresh (bus (run pre init))) (bus (run (pre @ Legacy_on (Descriptor d) h # rest) init)) =
     map (\<lambda>e. (h, Payload (payload e))) (filter (\<lambda>e. type e = name d) (emitted rest))"
proof (intro conjI)
  show "exec (Legacy_on (Descriptor d) h) st = (Inr Undefined, step (Legacy_on (Descriptor d) h) st)"
    by (simp add: step_def)
  show "handles (step (Legacy_on (Descriptor d) h) st) = handles st"
    by (simp add: step_def)
  show "received (fresh (bus (run pre init)))
      (bus (run (pre @ Legacy_on (Descriptor d) h # rest) init)) =
      map (\<lambda>e. (h, Payload (payload e))) (filter (\<lambda>e. type e = name d) (emitted rest))"
    by (rule received_after_legacy_on)
qed

text \<open>
  C9, amended. A typed subscription on a tag made before a legacy \<^verbatim>\<open>emit\<close> with that string
  is passed the event \<^verbatim>\<open>{type, payload}\<close> of that \<^verbatim>\<open>emit\<close>, so it reads the payload given;
  one made after the \<^verbatim>\<open>emit\<close> has received nothing.
\<close>

theorem typed_subscription_receives_legacy_emit:
  "received (fresh (bus (run pre init)))
     (bus (run (pre @ [Dollar_on (BusEventType n) h, Legacy_emit (Name n) p]) init)) =
     [(h, Event \<lparr>type = n, payload = p\<rparr>)] \<and>
   received (fresh (bus (run (pre @ [Legacy_emit (Name n) p]) init)))
     (bus (run (pre @ [Legacy_emit (Name n) p, Dollar_on (BusEventType n) h]) init)) = []"
  using received_after_dollar_on [of pre "BusEventType n" h "[Legacy_emit (Name n) p]"]
    received_after_dollar_on [of "pre @ [Legacy_emit (Name n) p]" "BusEventType n" h "[]"]
  by (simp add: emitted_def)

text \<open>
  C9, as stated. A legacy \<^verbatim>\<open>emit('foo', {x: 1})\<close> followed by a typed subscription on
  \<^verbatim>\<open>'foo'\<close>: the handler is not invoked.
\<close>

theorem no_replay_of_legacy_emit:
  "invoked (bus (run [Legacy_emit (Name ''foo'') (Some [(''x'', 1::int)]),
                      Dollar_on (BusEventType ''foo'') (7::nat)] init)) = []"
  by (simp add: step_def init_defs bus_defs)

section \<open>Calls that change nothing\<close>

lemma same_but_console_refl: "same_but_console st st"
  by (simp add: same_but_console_def)

lemma same_but_console_step:
  assumes "same_but_console st st'"
  shows "same_but_console (step c st) (step c st')"
  using assms
  by (cases c)
    (auto simp: same_but_console_def step_defs
      split: prod.splits option.splits nameOrEvent.splits if_splits)

lemma same_but_console_run:
  assumes "same_but_console st st'"
  shows "same_but_console (run cs st) (run cs st')"
  using assms
  by (induction cs arbitrary: st st') (simp_all add: same_but_console_step)

lemma step_Legacy_on_Name:
  "step (Legacy_on (Name n) h) st =
     st\<lparr>bus := console_log (Log ''Deprecated emitter function used (on), use $on'') (bus st)\<rparr>"
  by (simp add: step_def EventBusSrv_on_def)

text \<open>
  C6. The legacy \<^verbatim>\<open>on\<close> with a string returns \<^verbatim>\<open>undefined\<close> without throwing, and all it
  does is write its deprecation line. No subscriber is made: a history with the call and
  the same history without it end with the same subscribers on the stream and the same
  handler invocations, so the handler given is never invoked on account of the call,
  whatever is emitted later.
\<close>

theorem legacy_on_string_registers_nothing:
  "exec (Legacy_on (Name n) h) st =
     (Inr Undefined,
      st\<lparr>bus := console_log (Log ''Deprecated emitter function used (on), use $on'') (bus st)\<rparr>) \<and>
   eventStream (bus (run (pre @ Legacy_on (Name n) h # rest) init)) =
     eventStream (bus (run (pre @ rest) init)) \<and>
   invoked (bus (run (pre @ Legacy_on (Name n) h # rest) init)) =
     invoked (bus (run (pre @ rest) init))"
proof -
  have "same_but_console (step (Legacy_on (Name n) h) (run pre init)) (run pre init)"
    by (simp add: step_Legacy_on_Name same_but_console_def console_log_def)
  then have "same_but_console (run rest (step (Legacy_on (Name n) h) (run pre init)))
      (run rest (run pre init))"
    by (rule same_but_console_run)
  then show ?thesis
    by (simp add: same_but_console_def EventBusSrv_on_def)
qed

lemma groupSub_update_same: "groupSub r = v \<Longrightarrow> r\<lparr>groupSub := v\<rparr> = r"
  by auto

lemma step_Group_unsubscribe:
  "step (Group_unsubscribe g) st =
     (case groupSub (groups st g) of
        None \<Rightarrow> st
      | Some sub \<Rightarrow>
          if closed sub then st
          else st\<lparr>bus := (bus st)\<lparr>eventStream :=
                      filter (\<lambda>s. sid s \<notin> set (subscriptions sub)) (eventStream (bus st))\<rparr>,
                  groups := (groups st)
                    (g := (groups st g)\<lparr>groupSub := Some (sub\<lparr>closed := True, subscriptions := []\<rparr>)\<rparr>)\<rparr>)"
  by (auto simp: step_def group_defs groupSub_update_same split: option.splits)

lemma handle_unsubscribe_twice:
  "step (Handle_unsubscribe i) (step (Handle_unsubscribe i) st) = step (Handle_unsubscribe i) st"
  by (simp add: step_Handle_unsubscribe)

lemma group_unsubscribe_twice:
  "step (Group_unsubscribe g) (step (Group_unsubscribe g) st) = step (Group_unsubscribe g) st"
  by (simp add: step_Group_unsubscribe split: option.splits)

lemma handle_unsubscribe_again:
  assumes "i < length (handles (run pre init))"
  shows "run (pre @ Handle_unsubscribe i # mid @ [Handle_unsubscribe i]) init =
         run (pre @ Handle_unsubscribe i # mid) init"
proof -
  define st0 :: "('a, 'b) client" where "st0 = run pre init"
  define s where "s = handles st0 ! i"
  define st1 where "st1 = step (Handle_unsubscribe i) st0"
  define st2 where "st2 = run mid st1"
  have i: "i < length (handles st0)"
    using assms by (simp add: st0_def)
  have "allocated st0"
    by (simp add: st0_def allocated_run allocated_init)
  then have "s < fresh (bus st0)"
    using i by (simp add: allocated_def s_def)
  with i have "gone s st1"
    unfolding st1_def s_def by (intro gone_after_unsubscribe) simp_all
  then have "gone s st2"
    unfolding st2_def using gone_run by blast
  then have absent: "filter (\<lambda>x. sid x \<noteq> s) (eventStream (bus st2)) = eventStream (bus st2)"
    by (auto simp: gone_def filter_id_conv)
  obtain m1 where "handles st1 = handles st0 @ m1"
    unfolding st1_def using handles_step by blast
  moreover obtain m2 where "handles st2 = handles st1 @ m2"
    unfolding st2_def using handles_run by blast
  ultimately have "i < length (handles st2)" and "handles st2 ! i = s"
    using i by (simp_all add: s_def nth_append)
  then have "step (Handle_unsubscribe i) st2 = st2"
    by (simp add: step_Handle_unsubscribe absent)
  then show ?thesis
    by (simp add: st2_def st1_def st0_def)
qed

text \<open>
  C3. Unsubscribing is idempotent and never throws. A second \<^verbatim>\<open>unsubscribe()\<close> on a handle
  right after the first returns \<^verbatim>\<open>undefined\<close> and changes nothing; so does a later one,
  whatever calls lie between the two, for every handle returned in a history. A second
  \<^verbatim>\<open>unsubscribe()\<close> on a group right after the first returns \<^verbatim>\<open>undefined\<close> and changes
  nothing, and so does \<^verbatim>\<open>unsubscribe()\<close> on a group that has no \<^verbatim>\<open>groupSub\<close>.
\<close>

theorem unsubscribe_idempotent:
  "exec (Handle_unsubscribe i) (step (Handle_unsubscribe i) st) =
     (Inr Undefined, step (Handle_unsubscribe i) st) \<and>
   (i < length (handles (run pre init)) \<longrightarrow>
      run (pre @ Handle_unsubscribe i # mid @ [Handle_unsubscribe i]) init =
      run (pre @ Handle_unsubscribe i # mid) init) \<and>
   exec (Group_unsubscribe g) (step (Group_unsubscribe g) st) =
     (Inr Undefined, step (Group_unsubscribe g) st) \<and>
   (groupSub (groups st g) = None \<longrightarrow> exec (Group_unsubscribe g) st = (Inr Undefined, st))"
proof (intro conjI impI)
  have "\<And>c st'. (\<exists>i. c = Handle_unsubscribe i) \<or> (\<exists>g. c = Group_unsubscribe g) \<Longrightarrow>
      exec c st' = (Inr Undefined, step c (st' :: ('a, 'b) client))"
    by (auto simp: step_def split: prod.splits)
  note ret = this
  show "exec (Handle_unsubscribe i) (step (Handle_unsubscribe i) st) =
      (Inr Undefined, step (Handle_unsubscribe i) st)"
    using ret [of "Handle_unsubscribe i"] by (simp add: handle_unsubscribe_twice)
  show "exec (Group_unsubscribe g) (step (Group_unsubscribe g) st) =
      (Inr Undefined, step (Group_unsubscribe g) st)"
    using ret [of "Group_unsubscribe g"] by (simp add: group_unsubscribe_twice)
  show "exec (Group_unsubscribe g) st = (Inr Undefined, st)" if "groupSub (groups st g) = None"
    using ret [of "Group_unsubscribe g" st] that by (simp add: step_Group_unsubscribe)
  show "run (pre @ Handle_unsubscribe i # mid @ [Handle_unsubscribe i]) init =
      run (pre @ Handle_unsubscribe i # mid) init" if "i < length (handles (run pre init))"
    using that by (rule handle_unsubscribe_again)
qed


theorem unsubscribe_idempotent_witness:
  "0 < length (handles (run [Dollar_on (BusEventType ''A'') (7::nat)] (init :: (nat, int) client))) \<and>
   run ([Dollar_on (BusEventType ''A'') (7::nat)] @ Handle_unsubscribe 0 #
          [Dollar_emit \<lparr>type = ''A'', payload = Some (1::int)\<rparr>] @ [Handle_unsubscribe 0]) init =
   run ([Dollar_on (BusEventType ''A'') (7::nat)] @ Handle_unsubscribe 0 #
          [Dollar_emit \<lparr>type = ''A'', payload = Some (1::int)\<rparr>]) init \<and>
   groupSub (groups (init :: (nat, int) client) 0) = None \<and>
   exec (Group_unsubscribe 0) (init :: (nat, int) client) = (Inr Undefined, init)"
proof -
  have h: "0 < length (handles (run [Dollar_on (BusEventType ''A'') (7::nat)] (init :: (nat, int) client)))"
    by (simp add: step_Dollar_on)
  have n: "groupSub (groups (init :: (nat, int) client) 0) = None"
    by (simp add: init_defs)
  show ?thesis
    using h n
      unsubscribe_idempotent [where i = 0 and st = "init :: (nat, int) client"
        and pre = "[Dollar_on (BusEventType ''A'') (7::nat)]"
        and mid = "[Dollar_emit \<lparr>type = ''A'', payload = Some (1::int)\<rparr>]" and g = 0]
    by blast
qed

section \<open>The stream refines the registry\<close>

lemma list_all2_filter_both:
  assumes "list_all2 P xs ys"
    and "\<And>x y. x \<in> set xs \<Longrightarrow> y \<in> set ys \<Longrightarrow> P x y \<Longrightarrow> p x = q y"
  shows "list_all2 P (filter p xs) (filter q ys)"
  using assms
  by (induction xs ys rule: list_all2_induct) auto

lemma stands_for_sids:
  assumes "list_all2 stands_for ss rs"
  shows "map sid ss = map subscriber rs"
  using assms by (induction ss rs rule: list_all2_induct) (simp_all add: stands_for_def)

lemma deliveries_registry:
  assumes "list_all2 stands_for ss rs"
  shows "deliveries e ss = map (delivery e) (filter (\<lambda>r. tag r = type e) rs)"
  using assms
  by (induction ss rs rule: list_all2_induct)
    (simp_all add: deliveries_def stands_for_def delivery_def)

lemma refines_init: "refines init empty_registry"
  by (simp add: refines_def init_defs empty_registry_def)

lemma refinesD:
  assumes "refines st R"
  shows "list_all2 stands_for (eventStream (bus st)) (live R)"
    and "fresh (bus st) = made R"
    and "length (handles st) = issued R"
    and "\<And>i. i < issued R \<Longrightarrow> handles st ! i < made R"
    and "\<And>r. r \<in> set (live R) \<Longrightarrow> subscriber r < made R"
    and "\<And>r i. r \<in> set (live R) \<Longrightarrow> handle_no r = Some i \<Longrightarrow> i < issued R"
    and "\<And>r i. r \<in> set (live R) \<Longrightarrow> i < issued R \<Longrightarrow>
           (handles st ! i = subscriber r) = (handle_no r = Some i)"
    and "\<And>r g. r \<in> set (live R) \<Longrightarrow> via r = Some g \<Longrightarrow> g \<in> opened R"
    and "\<And>g. (g \<in> opened R) = (groupSub (groups st g) \<noteq> None)"
    and "\<And>g sub. groupSub (groups st g) = Some sub \<Longrightarrow> closed sub = (g \<in> shut R)"
    and "\<And>g sub. groupSub (groups st g) = Some sub \<Longrightarrow> closed sub \<Longrightarrow> subscriptions sub = []"
    and "\<And>g sub k. groupSub (groups st g) = Some sub \<Longrightarrow> k \<in> set (subscriptions sub) \<Longrightarrow>
           k < made R"
    and "\<And>g sub r. groupSub (groups st g) = Some sub \<Longrightarrow> r \<in> set (live R) \<Longrightarrow>
           (subscriber r \<in> set (subscriptions sub)) = (via r = Some g)"
    and "\<And>g. g \<in> shut R \<Longrightarrow> g \<in> opened R"
  using assms by (simp_all add: refines_def subset_iff) blast+

lemma refinesI:
  assumes "list_all2 stands_for (eventStream (bus st)) (live R)"
    and "fresh (bus st) = made R"
    and "length (handles st) = issued R"
    and "\<And>i. i < issued R \<Longrightarrow> handles st ! i < made R"
    and "\<And>r. r \<in> set (live R) \<Longrightarrow> subscriber r < made R"
    and "\<And>r i. r \<in> set (live R) \<Longrightarrow> handle_no r = Some i \<Longrightarrow> i < issued R"
    and "\<And>r i. r \<in> set (live R) \<Longrightarrow> i < issued R \<Longrightarrow>
           (handles st ! i = subscriber r) = (handle_no r = Some i)"
    and "\<And>r g. r \<in> set (live R) \<Longrightarrow> via r = Some g \<Longrightarrow> g \<in> opened R"
    and "\<And>g. (g \<in> opened R) = (groupSub (groups st g) \<noteq> None)"
    and "\<And>g sub. groupSub (groups st g) = Some sub \<Longrightarrow> closed sub = (g \<in> shut R)"
    and "\<And>g sub. groupSub (groups st g) = Some sub \<Longrightarrow> closed sub \<Longrightarrow> subscriptions sub = []"
    and "\<And>g sub k. groupSub (groups st g) = Some sub \<Longrightarrow> k \<in> set (subscriptions sub) \<Longrightarrow>
           k < made R"
    and "\<And>g sub r. groupSub (groups st g) = Some sub \<Longrightarrow> r \<in> set (live R) \<Longrightarrow>
           (subscriber r \<in> set (subscriptions sub)) = (via r = Some g)"
    and "\<And>g. g \<in> shut R \<Longrightarrow> g \<in> opened R"
  shows "refines st R"
  unfolding refines_def
  by (intro conjI allI ballI impI subsetI; (rule assms; assumption))

lemma refines_frame:
  assumes "refines st R"
    and "eventStream (bus st') = eventStream (bus st)" and "fresh (bus st') = fresh (bus st)"
    and "handles st' = handles st" and "groups st' = groups st"
  shows "refines st' R"
  using assms(1) unfolding refines_def assms(2-5) .

lemma step_frame:
  assumes "pushed c \<noteq> None \<or> (\<exists>n h. c = Legacy_on (Name n) h) \<or> (\<exists>ev h. c = Legacy_off ev h)"
  shows "eventStream (bus (step c st)) = eventStream (bus st) \<and>
         fresh (bus (step c st)) = fresh (bus st) \<and>
         handles (step c st) = handles st \<and> groups (step c st) = groups st"
  using assms
  by (cases c rule: pushed.cases)
    (auto simp: step_defs split: prod.splits option.splits nameOrEvent.splits)

lemma record_call_frame:
  assumes "pushed c \<noteq> None \<or> (\<exists>n h. c = Legacy_on (Name n) h) \<or> (\<exists>ev h. c = Legacy_off ev h)"
  shows "record_call c R = R"
  using assms by (cases c rule: pushed.cases) auto

lemma refines_Dollar_on:
  assumes "refines st R" and c: "c = Dollar_on tf h"
  shows "refines (step c st) (record_call c R)"
proof (rule refinesI)
  note D = refinesD [OF assms(1)]
  note [simp] = c step_Dollar_on D(2,3)
  show "list_all2 stands_for (eventStream (bus (step c st))) (live (record_call c R))"
    using D(1) by (simp add: list_all2_appendI stands_for_def delivery_def)
  show "fresh (bus (step c st)) = made (record_call c R)"
    by simp
  show "length (handles (step c st)) = issued (record_call c R)"
    by simp
  show "handles (step c st) ! i < made (record_call c R)" if "i < issued (record_call c R)" for i
    using that D(4) [of i] by (auto simp: nth_append less_Suc_eq)
  show "subscriber r < made (record_call c R)" if "r \<in> set (live (record_call c R))" for r
    using that D(5) [of r] by auto
  show "i < issued (record_call c R)"
    if "r \<in> set (live (record_call c R))" "handle_no r = Some i" for r i
    using that D(6) [of r i] by auto
  show "(handles (step c st) ! i = subscriber r) = (handle_no r = Some i)"
    if "r \<in> set (live (record_call c R))" "i < issued (record_call c R)" for r i
    using that D(4) [of i] D(5) [of r] D(6) [of r i] D(7) [of r i]
    by (auto simp: nth_append less_Suc_eq)
  show "g \<in> opened (record_call c R)"
    if "r \<in> set (live (record_call c R))" "via r = Some g" for r g
    using that D(8) [of r g] by auto
  show "(g \<in> opened (record_call c R)) = (groupSub (groups (step c st) g) \<noteq> None)" for g
    using D(9) [of g] by simp
  show "closed sub = (g \<in> shut (record_call c R))"
    if "groupSub (groups (step c st) g) = Some sub" for g sub
    using that D(10) [of g sub] by simp
  show "subscriptions sub = []" if "groupSub (groups (step c st) g) = Some sub" "closed sub" for g sub
    using that D(11) [of g sub] by simp
  show "k < made (record_call c R)"
    if "groupSub (groups (step c st) g) = Some sub" "k \<in> set (subscriptions sub)" for g sub k
    using that D(12) [of g sub k] by simp
  show "(subscriber r \<in> set (subscriptions sub)) = (via r = Some g)"
    if "groupSub (groups (step c st) g) = Some sub" "r \<in> set (live (record_call c R))" for g sub r
    using that D(12) [of g sub "made R"] D(13) [of g sub r]
    by auto
  show "g \<in> opened (record_call c R)" if "g \<in> shut (record_call c R)" for g
    using that D(14) [of g] by simp
qed


lemma refines_Legacy_on_Descriptor:
  assumes "refines st R" and c: "c = Legacy_on (Descriptor d) h"
  shows "refines (step c st) (record_call c R)"
proof (rule refinesI)
  note D = refinesD [OF assms(1)]
  note [simp] = c step_Legacy_on_Descriptor D(2,3)
  show "list_all2 stands_for (eventStream (bus (step c st))) (live (record_call c R))"
    using D(1) by (simp add: list_all2_appendI stands_for_def delivery_def)
  show "fresh (bus (step c st)) = made (record_call c R)"
    by simp
  show "length (handles (step c st)) = issued (record_call c R)"
    by simp
  show "handles (step c st) ! i < made (record_call c R)" if "i < issued (record_call c R)" for i
    using that D(4) [of i] by (auto simp: less_Suc_eq)
  show "subscriber r < made (record_call c R)" if "r \<in> set (live (record_call c R))" for r
    using that D(5) [of r] by auto
  show "i < issued (record_call c R)"
    if "r \<in> set (live (record_call c R))" "handle_no r = Some i" for r i
    using that D(6) [of r i] by auto
  show "(handles (step c st) ! i = subscriber r) = (handle_no r = Some i)"
    if "r \<in> set (live (record_call c R))" "i < issued (record_call c R)" for r i
    using that D(4) [of i] D(7) [of r i] by auto
  show "g \<in> opened (record_call c R)"
    if "r \<in> set (live (record_call c R))" "via r = Some g" for r g
    using that D(8) [of r g] by auto
  show "(g \<in> opened (record_call c R)) = (groupSub (groups (step c st) g) \<noteq> None)" for g
    using D(9) [of g] by simp
  show "closed sub = (g \<in> shut (record_call c R))"
    if "groupSub (groups (step c st) g) = Some sub" for g sub
    using that D(10) [of g sub] by simp
  show "subscriptions sub = []" if "groupSub (groups (step c st) g) = Some sub" "closed sub" for g sub
    using that D(11) [of g sub] by simp
  show "k < made (record_call c R)"
    if "groupSub (groups (step c st) g) = Some sub" "k \<in> set (subscriptions sub)" for g sub k
    using that D(12) [of g sub k] by simp
  show "(subscriber r \<in> set (subscriptions sub)) = (via r = Some g)"
    if "groupSub (groups (step c st) g) = Some sub" "r \<in> set (live (record_call c R))" for g sub r
    using that D(12) [of g sub "made R"] D(13) [of g sub r]
    by auto
  show "g \<in> opened (record_call c R)" if "g \<in> shut (record_call c R)" for g
    using that D(14) [of g] by simp
qed

lemma refines_filter:
  assumes "refines st R"
    and "\<And>x r. x \<in> set (eventStream (bus st)) \<Longrightarrow> r \<in> set (live R) \<Longrightarrow>
           sid x = subscriber r \<Longrightarrow> p x = q r"
  shows "refines (st\<lparr>bus := (bus st)\<lparr>eventStream := filter p (eventStream (bus st))\<rparr>\<rparr>)
           (R\<lparr>live := filter q (live R)\<rparr>)"
proof (rule refinesI)
  note D = refinesD [OF assms(1)]
  show "list_all2 stands_for
      (eventStream (bus (st\<lparr>bus := (bus st)\<lparr>eventStream := filter p (eventStream (bus st))\<rparr>\<rparr>)))
      (live (R\<lparr>live := filter q (live R)\<rparr>))"
    using list_all2_filter_both [OF D(1), of p q] assms(2) by (simp add: stands_for_def)
next
  note D = refinesD [OF assms(1)]
  let ?st = "st\<lparr>bus := (bus st)\<lparr>eventStream := filter p (eventStream (bus st))\<rparr>\<rparr>"
  let ?R = "R\<lparr>live := filter q (live R)\<rparr>"
  show "fresh (bus ?st) = made ?R"
    using D(2) by simp
  show "length (handles ?st) = issued ?R"
    using D(3) by simp
  show "handles ?st ! i < made ?R" if "i < issued ?R" for i
    using that D(4) [of i] by simp
  show "subscriber r < made ?R" if "r \<in> set (live ?R)" for r
    using that D(5) [of r] by simp
  show "i < issued ?R" if "r \<in> set (live ?R)" "handle_no r = Some i" for r i
    using that D(6) [of r i] by simp
  show "(handles ?st ! i = subscriber r) = (handle_no r = Some i)"
    if "r \<in> set (live ?R)" "i < issued ?R" for r i
    using that D(7) [of r i] by simp
  show "g \<in> opened ?R" if "r \<in> set (live ?R)" "via r = Some g" for r g
    using that D(8) [of r g] by simp
  show "(g \<in> opened ?R) = (groupSub (groups ?st g) \<noteq> None)" for g
    using D(9) [of g] by simp
  show "closed sub = (g \<in> shut ?R)" if "groupSub (groups ?st g) = Some sub" for g sub
    using that D(10) [of g sub] by simp
  show "subscriptions sub = []" if "groupSub (groups ?st g) = Some sub" "closed sub" for g sub
    using that D(11) [of g sub] by simp
  show "k < made ?R" if "groupSub (groups ?st g) = Some sub" "k \<in> set (subscriptions sub)"
    for g sub k
    using that D(12) [of g sub k] by simp
  show "(subscriber r \<in> set (subscriptions sub)) = (via r = Some g)"
    if "groupSub (groups ?st g) = Some sub" "r \<in> set (live ?R)" for g sub r
    using that D(13) [of g sub r] by simp
  show "g \<in> opened ?R" if "g \<in> shut ?R" for g
    using that D(14) [of g] by simp
qed

lemma refines_Handle_unsubscribe:
  assumes "refines st R" and c: "c = Handle_unsubscribe i"
  shows "refines (step c st) (record_call c R)"
proof (cases "i < issued R")
  case True
  note D = refinesD [OF assms(1)]
  have "refines (st\<lparr>bus := (bus st)\<lparr>eventStream :=
            filter (\<lambda>s. sid s \<noteq> handles st ! i) (eventStream (bus st))\<rparr>\<rparr>)
          (R\<lparr>live := filter (\<lambda>r. handle_no r \<noteq> Some i) (live R)\<rparr>)"
  proof (rule refines_filter [OF assms(1)])
    fix x :: "('a, 'b) Subscriber" and r :: "'a registration"
    assume "r \<in> set (live R)" and "sid x = subscriber r"
    then show "(sid x \<noteq> handles st ! i) = (handle_no r \<noteq> Some i)"
      using D(7) [OF _ True, of r] by metis
  qed
  then show ?thesis
    using True by (simp add: c step_Handle_unsubscribe D(3))
next
  case False
  note D = refinesD [OF assms(1)]
  have "filter (\<lambda>r. handle_no r \<noteq> Some i) (live R) = live R"
    using D(6) False by (auto simp: filter_id_conv)
  then show ?thesis
    using False assms(1) by (simp add: c step_Handle_unsubscribe D(3))
qed


lemma step_Group_dollar_on:
  "step (Group_dollar_on g tf h) st =
     (let s = fresh (bus st);
          x = \<lparr>sid = s, predicate = (\<lambda>event. ([], type event = BusEventType.type tf)),
               next = (\<lambda>event. (h, Event event))\<rparr>;
          sub = (case groupSub (groups st g) of None \<Rightarrow> new_Subscription | Some sub \<Rightarrow> sub)
      in if closed sub
         then st\<lparr>bus := (bus st)\<lparr>eventStream := filter (\<lambda>y. sid y \<noteq> s) (eventStream (bus st)),
                               fresh := Suc s\<rparr>,
                 handles := handles st @ [s],
                 groups := (groups st)(g := (groups st g)\<lparr>groupSub := Some sub\<rparr>)\<rparr>
         else st\<lparr>bus := (bus st)\<lparr>eventStream := eventStream (bus st) @ [x], fresh := Suc s\<rparr>,
                 handles := handles st @ [s],
                 groups := (groups st)
                   (g := (groups st g)\<lparr>groupSub :=
                           Some (sub\<lparr>subscriptions := subscriptions sub @ [s]\<rparr>)\<rparr>)\<rparr>)"
  by (auto simp: step_def bus_defs group_defs Let_def split: option.splits)

lemma refines_old_sids:
  assumes "refines st R" and "x \<in> set (eventStream (bus st))"
  shows "sid x < made R"
proof -
  note D = refinesD [OF assms(1)]
  have "sid x \<in> set (map sid (eventStream (bus st)))"
    using assms(2) by simp
  then have "sid x \<in> set (map subscriber (live R))"
    by (simp only: stands_for_sids [OF D(1)])
  then show ?thesis
    using D(5) by auto
qed

lemma refines_Group_dollar_on:
  assumes "refines st R" and c: "c = Group_dollar_on g tf h"
  shows "refines (step c st) (record_call c R)"
proof -
  note D = refinesD [OF assms(1)]
  define sub where
    "sub = (case groupSub (groups st g) of None \<Rightarrow> new_Subscription | Some sub \<Rightarrow> sub)"
  have F1: "closed sub = (g \<in> shut R)"
    using D(9) [of g] D(10) [of g] D(14) [of g]
    by (auto simp: sub_def new_Subscription_def split: option.splits)
  have F2: "k < made R" if "k \<in> set (subscriptions sub)" for k
    using that D(12) [of g]
    by (auto simp: sub_def new_Subscription_def split: option.splits)
  have F3: "(subscriber r \<in> set (subscriptions sub)) = (via r = Some g)"
    if "r \<in> set (live R)" for r
    using that D(8) [of r g] D(9) [of g] D(13) [of g _ r]
    by (auto simp: sub_def new_Subscription_def split: option.splits)
  show ?thesis
  proof (cases "g \<in> shut R")
    case True
    then have closed: "closed sub"
      by (simp add: F1)
    then obtain known: "groupSub (groups st g) = Some sub"
      by (auto simp: sub_def new_Subscription_def split: option.splits)
    then have opened: "g \<in> opened R"
      by (simp add: D(9))
    have "sid y \<noteq> fresh (bus st)" if "y \<in> set (eventStream (bus st))" for y
      using refines_old_sids [OF assms(1) that] by (simp add: D(2))
    then have "filter (\<lambda>y. sid y \<noteq> fresh (bus st)) (eventStream (bus st)) = eventStream (bus st)"
      by (simp add: filter_id_conv)
    then have st': "step c st =
        st\<lparr>bus := (bus st)\<lparr>fresh := Suc (fresh (bus st))\<rparr>,
           handles := handles st @ [fresh (bus st)]\<rparr>"
      using closed known
      by (simp add: c step_Group_dollar_on sub_def [symmetric] groupSub_update_same Let_def)
    have R': "record_call c R = R\<lparr>made := Suc (made R), issued := Suc (issued R)\<rparr>"
      using True opened by (simp add: c insert_absorb)
    show ?thesis
      unfolding st' R'
    proof (rule refinesI)
      let ?st = "st\<lparr>bus := (bus st)\<lparr>fresh := Suc (fresh (bus st))\<rparr>,
           handles := handles st @ [fresh (bus st)]\<rparr>"
      let ?R = "R\<lparr>made := Suc (made R), issued := Suc (issued R)\<rparr>"
      note [simp] = D(2,3)
      show "list_all2 stands_for (eventStream (bus ?st)) (live ?R)"
        using D(1) by simp
      show "fresh (bus ?st) = made ?R"
        by simp
      show "length (handles ?st) = issued ?R"
        by simp
      show "handles ?st ! i < made ?R" if "i < issued ?R" for i
        using that D(4) [of i] by (auto simp: nth_append less_Suc_eq)
      show "subscriber r < made ?R" if "r \<in> set (live ?R)" for r
        using that D(5) [of r] by auto
      show "i < issued ?R" if "r \<in> set (live ?R)" "handle_no r = Some i" for r i
        using that D(6) [of r i] by auto
      show "(handles ?st ! i = subscriber r) = (handle_no r = Some i)"
        if "r \<in> set (live ?R)" "i < issued ?R" for r i
        using that D(5) [of r] D(6) [of r i] D(7) [of r i]
        by (auto simp: nth_append less_Suc_eq)
      show "g' \<in> opened ?R" if "r \<in> set (live ?R)" "via r = Some g'" for r g'
        using that D(8) [of r g'] by simp
      show "(g' \<in> opened ?R) = (groupSub (groups ?st g') \<noteq> None)" for g'
        using D(9) [of g'] by simp
      show "closed sub' = (g' \<in> shut ?R)" if "groupSub (groups ?st g') = Some sub'" for g' sub'
        using that D(10) [of g' sub'] by simp
      show "subscriptions sub' = []" if "groupSub (groups ?st g') = Some sub'" "closed sub'"
        for g' sub'
        using that D(11) [of g' sub'] by simp
      show "k < made ?R" if "groupSub (groups ?st g') = Some sub'" "k \<in> set (subscriptions sub')"
        for g' sub' k
        using that D(12) [of g' sub' k] by simp
      show "(subscriber r \<in> set (subscriptions sub')) = (via r = Some g')"
        if "groupSub (groups ?st g') = Some sub'" "r \<in> set (live ?R)" for g' sub' r
        using that D(13) [of g' sub' r] by simp
      show "g' \<in> opened ?R" if "g' \<in> shut ?R" for g'
        using that D(14) [of g'] by simp
    qed
  next
    case False
    then have open': "\<not> closed sub"
      by (simp add: F1)
    define r0 :: "'a registration" where
      "r0 = \<lparr>subscriber = made R, handle_no = Some (issued R), via = Some g,
              typed = True, tag = BusEventType.type tf, callback = h\<rparr>"
    define x :: "('a, 'b) Subscriber" where
      "x = \<lparr>sid = fresh (bus st), predicate = (\<lambda>event. ([], type event = BusEventType.type tf)),
             next = (\<lambda>event. (h, Event event))\<rparr>"
    define grp where
      "grp = (groups st g)\<lparr>groupSub :=
                Some (sub\<lparr>subscriptions := subscriptions sub @ [fresh (bus st)]\<rparr>)\<rparr>"
    have st': "step c st =
        st\<lparr>bus := (bus st)\<lparr>eventStream := eventStream (bus st) @ [x],
                           fresh := Suc (fresh (bus st))\<rparr>,
           handles := handles st @ [fresh (bus st)],
           groups := (groups st)(g := grp)\<rparr>"
      using open' by (simp add: c step_Group_dollar_on sub_def [symmetric] x_def grp_def Let_def)
    have R': "record_call c R =
        R\<lparr>live := live R @ [r0], made := Suc (made R), issued := Suc (issued R),
          opened := insert g (opened R)\<rparr>"
      using False by (simp add: c r0_def)
    have grp: "groupSub grp = Some (sub\<lparr>subscriptions := subscriptions sub @ [made R]\<rparr>)"
      by (simp add: grp_def D(2))
    show ?thesis
      unfolding st' R'
    proof (rule refinesI)
      let ?st = "st\<lparr>bus := (bus st)\<lparr>eventStream := eventStream (bus st) @ [x],
                           fresh := Suc (fresh (bus st))\<rparr>,
           handles := handles st @ [fresh (bus st)],
           groups := (groups st)(g := grp)\<rparr>"
      let ?R = "R\<lparr>live := live R @ [r0], made := Suc (made R), issued := Suc (issued R),
          opened := insert g (opened R)\<rparr>"
      note [simp] = D(2,3)
      have r0 [simp]: "subscriber r0 = made R" "handle_no r0 = Some (issued R)" "via r0 = Some g"
        by (simp_all add: r0_def)
      show "list_all2 stands_for (eventStream (bus ?st)) (live ?R)"
        using D(1) by (simp add: list_all2_appendI stands_for_def delivery_def x_def r0_def)
      show "fresh (bus ?st) = made ?R"
        by simp
      show "length (handles ?st) = issued ?R"
        by simp
      show "handles ?st ! i < made ?R" if "i < issued ?R" for i
        using that D(4) [of i] by (auto simp: nth_append less_Suc_eq)
      show "subscriber r < made ?R" if "r \<in> set (live ?R)" for r
        using that D(5) [of r] by auto
      show "i < issued ?R" if "r \<in> set (live ?R)" "handle_no r = Some i" for r i
        using that D(6) [of r i] by auto
      show "(handles ?st ! i = subscriber r) = (handle_no r = Some i)"
        if "r \<in> set (live ?R)" "i < issued ?R" for r i
        using that D(4) [of i] D(5) [of r] D(6) [of r i] D(7) [of r i]
        by (auto simp: nth_append less_Suc_eq)
      show "g' \<in> opened ?R" if "r \<in> set (live ?R)" "via r = Some g'" for r g'
        using that D(8) [of r g'] by auto
      show "(g' \<in> opened ?R) = (groupSub (groups ?st g') \<noteq> None)" for g'
        using D(9) [of g'] by (simp add: grp)
      show "closed sub' = (g' \<in> shut ?R)" if "groupSub (groups ?st g') = Some sub'" for g' sub'
        using that D(10) [of g' sub'] F1 by (auto simp: grp split: if_splits)
      show "subscriptions sub' = []" if "groupSub (groups ?st g') = Some sub'" "closed sub'"
        for g' sub'
        using that D(11) [of g' sub'] open' by (auto simp: grp split: if_splits)
      show "k < made ?R" if "groupSub (groups ?st g') = Some sub'" "k \<in> set (subscriptions sub')"
        for g' sub' k
        using that D(12) [of g' sub' k] F2 [of k] by (auto simp: grp less_Suc_eq split: if_splits)
      show "(subscriber r \<in> set (subscriptions sub')) = (via r = Some g')"
        if "groupSub (groups ?st g') = Some sub'" "r \<in> set (live ?R)" for g' sub' r
        using that D(5) [of r] D(12) [of g' sub' "made R"] D(13) [of g' sub' r] F3 [of r]
        by (auto simp: grp split: if_splits)
      show "g' \<in> opened ?R" if "g' \<in> shut ?R" for g'
        using that D(14) [of g'] by simp
    qed
  qed
qed


lemma refines_Group_unsubscribe:
  assumes "refines st R" and c: "c = Group_unsubscribe g"
  shows "refines (step c st) (record_call c R)"
proof -
  note D = refinesD [OF assms(1)]
  consider (none) "groupSub (groups st g) = None"
    | (shut) sub where "groupSub (groups st g) = Some sub" "closed sub"
    | (opened) sub where "groupSub (groups st g) = Some sub" "\<not> closed sub"
    by (cases "groupSub (groups st g)") auto
  then show ?thesis
  proof cases
    case none
    then have "g \<notin> opened R"
      by (simp add: D(9))
    moreover from this have "filter (\<lambda>r. via r \<noteq> Some g) (live R) = live R"
      using D(8) by (auto simp: filter_id_conv)
    ultimately show ?thesis
      using assms(1) none by (simp add: c step_Group_unsubscribe)
  next
    case shut
    then have "g \<in> shut R" and "g \<in> opened R"
      using D(9) [of g] D(10) [of g sub] by simp_all
    moreover have "filter (\<lambda>r. via r \<noteq> Some g) (live R) = live R"
      using D(11) [OF shut] D(13) [OF shut(1)] by (auto simp: filter_id_conv)
    ultimately show ?thesis
      using assms(1) shut by (simp add: c step_Group_unsubscribe insert_absorb)
  next
    case opened
    define grp where
      "grp = (groups st g)\<lparr>groupSub := Some (sub\<lparr>closed := True, subscriptions := []\<rparr>)\<rparr>"
    have grp: "groupSub grp = Some (sub\<lparr>closed := True, subscriptions := []\<rparr>)"
      by (simp add: grp_def)
    have g: "g \<in> opened R"
      using opened by (simp add: D(9))
    have st': "step c st =
        st\<lparr>bus := (bus st)\<lparr>eventStream :=
               filter (\<lambda>s. sid s \<notin> set (subscriptions sub)) (eventStream (bus st))\<rparr>,
           groups := (groups st)(g := grp)\<rparr>"
      using opened by (simp add: c step_Group_unsubscribe grp_def)
    have R': "record_call c R =
        R\<lparr>live := filter (\<lambda>r. via r \<noteq> Some g) (live R), shut := insert g (shut R)\<rparr>"
      using g by (simp add: c)
    have "refines (st\<lparr>bus := (bus st)\<lparr>eventStream :=
               filter (\<lambda>s. sid s \<notin> set (subscriptions sub)) (eventStream (bus st))\<rparr>\<rparr>)
          (R\<lparr>live := filter (\<lambda>r. via r \<noteq> Some g) (live R)\<rparr>)"
    proof (rule refines_filter [OF assms(1)])
      fix x :: "('a, 'b) Subscriber" and r :: "'a registration"
      assume "r \<in> set (live R)" and "sid x = subscriber r"
      then show "(sid x \<notin> set (subscriptions sub)) = (via r \<noteq> Some g)"
        using D(13) [OF opened(1), of r] by simp
    qed
    note F = refinesD [OF this]
    show ?thesis
      unfolding st' R'
    proof (rule refinesI)
      let ?st = "st\<lparr>bus := (bus st)\<lparr>eventStream :=
               filter (\<lambda>s. sid s \<notin> set (subscriptions sub)) (eventStream (bus st))\<rparr>,
           groups := (groups st)(g := grp)\<rparr>"
      let ?R = "R\<lparr>live := filter (\<lambda>r. via r \<noteq> Some g) (live R), shut := insert g (shut R)\<rparr>"
      show "list_all2 stands_for (eventStream (bus ?st)) (live ?R)"
        using F(1) by simp
      show "fresh (bus ?st) = made ?R"
        using D(2) by simp
      show "length (handles ?st) = issued ?R"
        using D(3) by simp
      show "handles ?st ! i < made ?R" if "i < issued ?R" for i
        using that D(4) [of i] by simp
      show "subscriber r < made ?R" if "r \<in> set (live ?R)" for r
        using that D(5) [of r] by simp
      show "i < issued ?R" if "r \<in> set (live ?R)" "handle_no r = Some i" for r i
        using that D(6) [of r i] by simp
      show "(handles ?st ! i = subscriber r) = (handle_no r = Some i)"
        if "r \<in> set (live ?R)" "i < issued ?R" for r i
        using that D(7) [of r i] by simp
      show "g' \<in> opened ?R" if "r \<in> set (live ?R)" "via r = Some g'" for r g'
        using that D(8) [of r g'] by simp
      show "(g' \<in> opened ?R) = (groupSub (groups ?st g') \<noteq> None)" for g'
        using D(9) [of g'] g by (auto simp: grp)
      show "closed sub' = (g' \<in> shut ?R)" if "groupSub (groups ?st g') = Some sub'" for g' sub'
        using that D(10) [of g' sub'] by (auto simp: grp split: if_splits)
      show "subscriptions sub' = []" if "groupSub (groups ?st g') = Some sub'" "closed sub'"
        for g' sub'
        using that D(11) [of g' sub'] by (auto simp: grp split: if_splits)
      show "k < made ?R" if "groupSub (groups ?st g') = Some sub'" "k \<in> set (subscriptions sub')"
        for g' sub' k
        using that D(12) [of g' sub' k] by (auto simp: grp split: if_splits)
      show "(subscriber r \<in> set (subscriptions sub')) = (via r = Some g')"
        if "groupSub (groups ?st g') = Some sub'" "r \<in> set (live ?R)" for g' sub' r
        using that D(13) [of g' sub' r] by (auto simp: grp split: if_splits)
      show "g' \<in> opened ?R" if "g' \<in> shut ?R" for g'
        using that D(14) [of g'] g by auto
    qed
  qed
qed

lemma refines_frame_call:
  assumes "refines st R"
    and "pushed c \<noteq> None \<or> (\<exists>n h. c = Legacy_on (Name n) h) \<or> (\<exists>ev h. c = Legacy_off ev h)"
  shows "refines (step c st) (record_call c R)"
  using step_frame [OF assms(2), of st] record_call_frame [OF assms(2), of R] assms(1)
  by (simp add: refines_frame)

lemma refines_step:
  assumes "refines st R"
  shows "refines (step c st) (record_call c R)"
proof (cases c)
  case (Dollar_emit e)
  then show ?thesis by (intro refines_frame_call [OF assms]) simp
next
  case (Dollar_on tf h)
  then show ?thesis by (rule refines_Dollar_on [OF assms])
next
  case (Handle_unsubscribe i)
  then show ?thesis by (rule refines_Handle_unsubscribe [OF assms])
next
  case (Legacy_emit ev p)
  then show ?thesis by (intro refines_frame_call [OF assms]) (cases ev; simp)
next
  case (Legacy_on ev h)
  show ?thesis
  proof (cases ev)
    case (Name n)
    with Legacy_on show ?thesis by (intro refines_frame_call [OF assms]) simp
  next
    case (Descriptor d)
    with Legacy_on have "c = Legacy_on (Descriptor d) h" by simp
    then show ?thesis by (rule refines_Legacy_on_Descriptor [OF assms])
  qed
next
  case (Legacy_off ev h)
  then show ?thesis by (intro refines_frame_call [OF assms]) simp
next
  case (Group_dollar_emit g e)
  then show ?thesis by (intro refines_frame_call [OF assms]) simp
next
  case (Group_dollar_on g tf h)
  then show ?thesis by (rule refines_Group_dollar_on [OF assms])
next
  case (Group_unsubscribe g)
  then show ?thesis by (rule refines_Group_unsubscribe [OF assms])
qed

lemma refines_run:
  assumes "refines st R"
  shows "refines (run cs st) (fold record_call cs R)"
  using assms by (induction cs arbitrary: st R) (simp_all add: refines_step)

lemma refines_history: "refines (run cs init) (fold record_call cs empty_registry)"
  by (rule refines_run [OF refines_init])

lemma stream_of_history:
  "list_all2 stands_for (eventStream (bus (run cs init))) (registered cs)"
  using refinesD(1) [OF refines_history] by (simp add: registered_def)

text \<open>
  What a typed emission invokes after any history: one invocation for each live
  registration of the event's tag, in the order of registration.
\<close>

lemma invoked_after_emit:
  "invoked (bus (run (cs @ [Dollar_emit e]) init)) =
     invoked (bus (run cs init)) @
       map (delivery e) (filter (\<lambda>r. tag r = type e) (registered cs))"
  by (simp add: invoked_step deliveries_registry [OF stream_of_history])

text \<open>
  C1. After any history of calls, \<^verbatim>\<open>$emit(E)\<close> invokes, before it returns, the handler of
  every registration that is live (made and not unsubscribed, by its handle or by its
  group) and whose tag is the tag of \<open>E\<close>: each exactly once, in the order the
  registrations were made, and no handler registered for another tag. A handler registered
  with \<^verbatim>\<open>$on\<close> is passed \<open>E\<close>; one registered with the legacy \<^verbatim>\<open>on\<close> is on the same stream
  and is passed the payload of \<open>E\<close>.
\<close>

theorem emit_dispatch:
  "invoked (bus (run (cs @ [Dollar_emit e]) init)) =
     invoked (bus (run cs init)) @
       map (delivery e) (filter (\<lambda>r. tag r = type e) (registered cs))"
  by (rule invoked_after_emit)

theorem emit_dispatch_witness:
  "invoked (bus (run ([Dollar_on (BusEventType ''A'') (1::nat), Dollar_on (BusEventType ''B'') 2,
                       Dollar_on (BusEventType ''A'') 3, Handle_unsubscribe 0,
                       Legacy_on (Descriptor \<lparr>name = ''A''\<rparr>) 4, Dollar_on (BusEventType ''A'') 5] @
                      [Dollar_emit \<lparr>type = ''A'', payload = Some (42::int)\<rparr>]) init)) =
     [(2, 3, Event \<lparr>type = ''A'', payload = Some 42\<rparr>), (3, 4, Payload (Some 42)),
      (4, 5, Event \<lparr>type = ''A'', payload = Some 42\<rparr>)]"
  using emit_dispatch [of "[Dollar_on (BusEventType ''A'') (1::nat), Dollar_on (BusEventType ''B'') 2,
                       Dollar_on (BusEventType ''A'') 3, Handle_unsubscribe 0,
                       Legacy_on (Descriptor \<lparr>name = ''A''\<rparr>) 4, Dollar_on (BusEventType ''A'') 5]"
      "\<lparr>type = ''A'', payload = Some (42::int)\<rparr>"]
  by (simp add: registered_def empty_registry_def delivery_def invoked_step init_defs)

lemma registered_snoc_Group_unsubscribe:
  "registered (cs @ [Group_unsubscribe g]) = filter (\<lambda>r. via r \<noteq> Some g) (registered cs)"
  by (simp add: registered_def)

text \<open>
  C4. After any history, \<^verbatim>\<open>unsubscribe()\<close> on group \<open>g\<close> followed by an emission invokes the
  handlers of the live registrations of the event's tag except those made through \<open>g\<close>:
  every registration made through \<open>g\<close> is deactivated, and the registrations made on the
  bus itself or through another group receive the event as they would have without the
  call, in the same order.
\<close>

theorem group_unsubscribe_frame:
  "invoked (bus (run (cs @ [Group_unsubscribe g, Dollar_emit e]) init)) =
     invoked (bus (run cs init)) @
       map (delivery e) (filter (\<lambda>r. tag r = type e \<and> via r \<noteq> Some g) (registered cs))"
proof -
  have "cs @ [Group_unsubscribe g, Dollar_emit e] = (cs @ [Group_unsubscribe g]) @ [Dollar_emit e]"
    by simp
  then have "invoked (bus (run (cs @ [Group_unsubscribe g, Dollar_emit e]) init)) =
      invoked (bus (run (cs @ [Group_unsubscribe g]) init)) @
        map (delivery e) (filter (\<lambda>r. tag r = type e) (registered (cs @ [Group_unsubscribe g])))"
    by (simp only: invoked_after_emit)
  moreover have "invoked (bus (run (cs @ [Group_unsubscribe g]) init)) = invoked (bus (run cs init))"
    by (simp add: invoked_step)
  ultimately show ?thesis
    by (simp add: registered_snoc_Group_unsubscribe conj_commute)
qed

theorem group_unsubscribe_frame_witness:
  "invoked (bus (run ([Group_dollar_on 0 (BusEventType ''X'') (1::nat), Dollar_on (BusEventType ''X'') 2,
                       Group_dollar_on 1 (BusEventType ''X'') 3, Group_dollar_on 0 (BusEventType ''X'') 4] @
                      [Group_unsubscribe 0, Dollar_emit \<lparr>type = ''X'', payload = None :: int option\<rparr>])
                   init)) =
     [(1, 2, Event \<lparr>type = ''X'', payload = None\<rparr>), (2, 3, Event \<lparr>type = ''X'', payload = None\<rparr>)]"
  using group_unsubscribe_frame [of "[Group_dollar_on 0 (BusEventType ''X'') (1::nat),
        Dollar_on (BusEventType ''X'') 2, Group_dollar_on 1 (BusEventType ''X'') 3,
        Group_dollar_on 0 (BusEventType ''X'') 4]" 0 "\<lparr>type = ''X'', payload = None :: int option\<rparr>"]
  by (simp add: registered_def empty_registry_def delivery_def invoked_step init_defs)

end
